theory Spec2Isabelle
  imports Complex_Main "HOL-Library.Word" "HOL-Library.Log_Nat"
begin

section \<open>JavaScript strings\<close>

text \<open>
  A JavaScript string is a sequence of 16-bit code units; \<open>.length\<close> counts them.
  \<open>str\<close> turns an ASCII literal into such a sequence.
\<close>

type_synonym jschar = "16 word"
type_synonym jsstring = "jschar list"

definition str :: "string \<Rightarrow> jsstring" where
  "str s = map of_char s"

definition isDigit :: "jschar \<Rightarrow> bool" where
  \<comment> \<open>the class \<open>\d\<close>, and DecimalDigit of the numeric grammar\<close>
  "isDigit c \<longleftrightarrow> 0x30 \<le> c \<and> c \<le> 0x39"

definition isWhiteSpace :: "jschar \<Rightarrow> bool" where
  \<comment> \<open>the class \<open>\s\<close> (WhiteSpace and LineTerminator), also what parseFloat trims\<close>
  "isWhiteSpace c \<longleftrightarrow>
     c \<in> {0x09, 0x0A, 0x0B, 0x0C, 0x0D, 0x20, 0xA0, 0x1680, 0x2028, 0x2029, 0x202F, 0x205F,
          0x3000, 0xFEFF} \<or> (0x2000 \<le> c \<and> c \<le> 0x200A)"

definition isLineTerminator :: "jschar \<Rightarrow> bool" where
  "isLineTerminator c \<longleftrightarrow> c \<in> {0x0A, 0x0D, 0x2028, 0x2029}"

definition digit_char :: "int \<Rightarrow> jschar" where
  "digit_char d = of_int (48 + d)"

definition digit_value :: "jschar \<Rightarrow> int" where
  "digit_value c = uint c - 48"

function decimal :: "int \<Rightarrow> jsstring" where
  \<comment> \<open>the decimal digits of \<open>n \<ge> 0\<close>\<close>
  "decimal n = (if n < 10 then [digit_char n] else decimal (n div 10) @ [digit_char (n mod 10)])"
  by pat_completeness auto
termination
  by (relation "measure nat") auto

declare decimal.simps [simp del]

definition digits_value :: "jsstring \<Rightarrow> int" where
  "digits_value ds = foldl (\<lambda>a c. 10 * a + digit_value c) 0 ds"

definition starts_with :: "jsstring \<Rightarrow> jsstring \<Rightarrow> bool" where
  \<comment> \<open>\<open>starts_with p s\<close>: \<open>p\<close> occurs in \<open>s\<close> at position 0\<close>
  "starts_with p s \<longleftrightarrow> take (length p) s = p"

definition ends_with :: "jsstring \<Rightarrow> jsstring \<Rightarrow> bool" where
  \<comment> \<open>\<open>s.endsWith(p)\<close>\<close>
  "ends_with p s \<longleftrightarrow> length p \<le> length s \<and> drop (length s - length p) s = p"

fun split_on :: "jschar \<Rightarrow> jsstring \<Rightarrow> jsstring list" where
  \<comment> \<open>\<open>s.split(c)\<close> for a one-character separator\<close>
  "split_on c [] = [[]]"
| "split_on c (x # xs) =
     (if x = c then [] # split_on c xs
      else (case split_on c xs of [] \<Rightarrow> [[x]] | p # ps \<Rightarrow> (x # p) # ps))"

fun getSubstitution :: "jsstring \<Rightarrow> jsstring \<Rightarrow> jsstring \<Rightarrow> jsstring \<Rightarrow> jsstring" where
  \<comment> \<open>The replacement text of \<open>String.prototype.replace\<close> for a match \<open>matched\<close> between
      \<open>pre\<close> and \<open>post\<close>, when the pattern has no capture group: \<open>$$\<close>, \<open>$&\<close>,
      \<open>$`\<close> and \<open>$'\<close> are expanded, every other character (also \<open>$1\<close>, \<open>$<\<close>) is literal.\<close>
  "getSubstitution matched pre post [] = []"
| "getSubstitution matched pre post [c] = [c]"
| "getSubstitution matched pre post (c # d # r) =
     (if c = 0x24 \<and> d = 0x24 then 0x24 # getSubstitution matched pre post r
      else if c = 0x24 \<and> d = 0x26 then matched @ getSubstitution matched pre post r
      else if c = 0x24 \<and> d = 0x60 then pre @ getSubstitution matched pre post r
      else if c = 0x24 \<and> d = 0x27 then post @ getSubstitution matched pre post r
      else c # getSubstitution matched pre post (d # r))"

fun replace_char_from :: "jschar \<Rightarrow> jsstring \<Rightarrow> jsstring \<Rightarrow> jsstring \<Rightarrow> jsstring" where
  "replace_char_from c template pre [] = []"
| "replace_char_from c template pre (x # xs) =
     (if x = c then getSubstitution [x] pre xs template
                    @ replace_char_from c template (pre @ [x]) xs
      else x # replace_char_from c template (pre @ [x]) xs)"

definition replace_char_global :: "jschar \<Rightarrow> jsstring \<Rightarrow> jsstring \<Rightarrow> jsstring" where
  \<comment> \<open>\<open>s.replace(/c/g, template)\<close> for a regular expression that is one literal character\<close>
  "replace_char_global c template s = replace_char_from c template [] s"

fun replace_first :: "jsstring \<Rightarrow> jsstring \<Rightarrow> jsstring \<Rightarrow> jsstring" where
  \<comment> \<open>\<open>s.replace(p, r)\<close> for a string pattern \<open>p\<close> and a replacement \<open>r\<close> without \<open>$\<close>
      (the source passes \<open>'.'\<close> and \<open>''\<close>): the first occurrence only; the empty pattern
      occurs at position 0\<close>
  "replace_first p r [] = (if p = [] then r else [])"
| "replace_first p r (x # xs) =
     (if starts_with p (x # xs) then r @ drop (length p) (x # xs)
      else x # replace_first p r xs)"

function remove_all :: "jsstring \<Rightarrow> jsstring \<Rightarrow> jsstring" where
  \<comment> \<open>every occurrence of the literal \<open>p\<close>, leftmost first and not overlapping, replaced by
      the empty string; the empty \<open>p\<close> matches the empty string everywhere, which changes
      nothing\<close>
  "remove_all p [] = []"
| "remove_all p (x # xs) =
     (if p \<noteq> [] \<and> starts_with p (x # xs) then remove_all p (drop (length p) (x # xs))
      else x # remove_all p xs)"
  by pat_completeness auto
termination
  by (relation "measure (\<lambda>(p, s). length s)") auto

section \<open>Errors and the modelled fragment of RegExp\<close>

text \<open>
  A call returns, throws, or leaves the model: \<open>new RegExp(source, 'g')\<close> is modelled for a
  source without syntax characters (a literal), for the source \<open>.\<close>, and for the
  one-character sources that are no pattern at all, which throw a SyntaxError.
\<close>

datatype js_error = SyntaxError | ZodError

datatype 'a completion = Returns 'a | Throws js_error | Unmodelled

datatype regexp = Literal jsstring | AnyChar

definition isSyntaxCharacter :: "jschar \<Rightarrow> bool" where
  \<comment> \<open>\<open>^ $ \ . * + ? ( ) [ ] { } |\<close>\<close>
  "isSyntaxCharacter c \<longleftrightarrow>
     c \<in> {0x5E, 0x24, 0x5C, 0x2E, 0x2A, 0x2B, 0x3F, 0x28, 0x29, 0x5B, 0x5D, 0x7B, 0x7D, 0x7C}"

definition RegExp_new :: "jsstring \<Rightarrow> regexp completion" where
  "RegExp_new source =
     (if \<forall>c \<in> set source. \<not> isSyntaxCharacter c then Returns (Literal source)
      else if source = [0x2E] then Returns AnyChar
      else if source \<in> {[0x28], [0x29], [0x5B], [0x2A], [0x2B], [0x3F], [0x5C]}
        then Throws SyntaxError
      else Unmodelled)"

definition replace_regexp_empty :: "regexp \<Rightarrow> jsstring \<Rightarrow> jsstring" where
  \<comment> \<open>\<open>s.replace(re, '')\<close> for a global \<open>re\<close>; \<open>.\<close> matches all but line terminators\<close>
  "replace_regexp_empty re s =
     (case re of Literal p \<Rightarrow> remove_all p s | AnyChar \<Rightarrow> filter isLineTerminator s)"

section \<open>JavaScript numbers\<close>

text \<open>
  A Number is an IEEE 754 binary64 value: NaN, the two infinities, negative zero, or a
  finite rational (\<open>Finite 0\<close> is positive zero). Every arithmetic result is the exact
  result rounded to the nearest binary64 value, ties to even (\<open>rd\<close>), with overflow to
  infinity and gradual underflow.
\<close>

datatype number = NaN | PosInfinity | NegInfinity | NegZero | Finite rat

definition ilog2 :: "rat \<Rightarrow> int" where
  \<comment> \<open>\<open>\<lfloor>log\<^sub>2 \<bar>x\<bar>\<rfloor>\<close> for \<open>x \<noteq> 0\<close>\<close>
  "ilog2 x = (let (a, b) = quotient_of \<bar>x\<bar>;
                  k = bitlen a - bitlen b
              in if 2 powi k \<le> \<bar>x\<bar> then k else k - 1)"

definition round_half_even :: "rat \<Rightarrow> int" where
  "round_half_even y =
     (let f = \<lfloor>y\<rfloor>; r = y - of_int f
      in if r < 1 / 2 then f else if 1 / 2 < r then f + 1 else if even f then f else f + 1)"

definition rd :: "rat \<Rightarrow> rat" where
  \<comment> \<open>53 significant bits, the exponent bounded below (subnormals), unbounded above\<close>
  "rd x = (if x = 0 then 0
           else let q = 2 powi (max (ilog2 x) (- 1022) - 52)
                in of_int (round_half_even (x / q)) * q)"

definition fround :: "rat \<Rightarrow> number" where
  \<comment> \<open>the Number of an exact result: a negative result that rounds to zero is \<open>-0\<close>, one
      of magnitude \<open>2\<^sup>1\<^sup>0\<^sup>2\<^sup>4\<close> or more after rounding is infinite\<close>
  "fround x = (let y = rd x
               in if y = 0 then (if x < 0 then NegZero else Finite 0)
                  else if 1024 \<le> ilog2 y then (if 0 < x then PosInfinity else NegInfinity)
                  else Finite y)"

definition times_pos :: "number \<Rightarrow> rat \<Rightarrow> number" where
  \<comment> \<open>\<open>x * c\<close> for a finite constant \<open>c > 0\<close>\<close>
  "times_pos x c = (case x of Finite r \<Rightarrow> fround (r * c) | _ \<Rightarrow> x)"

definition divide_pos :: "number \<Rightarrow> rat \<Rightarrow> number" where
  \<comment> \<open>\<open>x / c\<close> for a finite constant \<open>c > 0\<close>\<close>
  "divide_pos x c = (case x of Finite r \<Rightarrow> fround (r / c) | _ \<Rightarrow> x)"

definition Number_of_bigint :: "int \<Rightarrow> number" where
  \<comment> \<open>\<open>Number(n)\<close> for a BigInt \<open>n\<close>\<close>
  "Number_of_bigint n = fround (of_int n)"

definition Math_round :: "number \<Rightarrow> number" where
  \<comment> \<open>the nearest integer, ties towards \<open>+\<infinity>\<close>; \<open>-0\<close> for \<open>-0.5 \<le> x < 0\<close>\<close>
  "Math_round x = (case x of
       Finite r \<Rightarrow> (let k = \<lfloor>r + 1 / 2\<rfloor> in if k = 0 \<and> r < 0 then NegZero else Finite (of_int k))
     | _ \<Rightarrow> x)"

definition isNaN :: "number \<Rightarrow> bool" where
  "isNaN x \<longleftrightarrow> x = NaN"

definition num_le :: "number \<Rightarrow> number \<Rightarrow> bool" where
  \<comment> \<open>\<open>x <= y\<close>: false when either side is NaN; the two zeros are equal\<close>
  "num_le x y = (case (x, y) of
       (NaN, _) \<Rightarrow> False | (_, NaN) \<Rightarrow> False
     | (NegInfinity, _) \<Rightarrow> True | (_, PosInfinity) \<Rightarrow> True
     | (PosInfinity, _) \<Rightarrow> False | (_, NegInfinity) \<Rightarrow> False
     | (NegZero, NegZero) \<Rightarrow> True
     | (NegZero, Finite b) \<Rightarrow> 0 \<le> b
     | (Finite a, NegZero) \<Rightarrow> a \<le> 0
     | (Finite a, Finite b) \<Rightarrow> a \<le> b)"

section \<open>\<open>parseFloat\<close>\<close>

text \<open>
  Leading white space is skipped, then the longest prefix that is a decimal literal
  (sign, \<open>Infinity\<close> or digits with an optional fraction and exponent) is read and the rest
  ignored; without such a prefix the result is NaN. The value read is rounded to the
  nearest Number.
\<close>

definition exponent_part :: "jsstring \<Rightarrow> int" where
  "exponent_part r = (case r of
       [] \<Rightarrow> 0
     | c # r' \<Rightarrow>
         if c = 0x65 \<or> c = 0x45 then
           (let neg = (r' \<noteq> [] \<and> hd r' = 0x2D);
                r'' = (if r' \<noteq> [] \<and> (hd r' = 0x2D \<or> hd r' = 0x2B) then tl r' else r');
                ds = takeWhile isDigit r''
            in if ds = [] then 0
               else if neg then - digits_value ds else digits_value ds)
         else 0)"

definition parseFloat :: "jsstring \<Rightarrow> number" where
  "parseFloat s =
     (let t = dropWhile isWhiteSpace s;
          neg = (t \<noteq> [] \<and> hd t = 0x2D);
          u = (if t \<noteq> [] \<and> (hd t = 0x2D \<or> hd t = 0x2B) then tl t else t)
      in if starts_with (str ''Infinity'') u then (if neg then NegInfinity else PosInfinity)
         else
           (let ip = takeWhile isDigit u;
                r1 = dropWhile isDigit u;
                has_dot = (r1 \<noteq> [] \<and> hd r1 = 0x2E);
                fp = (if has_dot then takeWhile isDigit (tl r1) else []);
                r2 = (if has_dot then dropWhile isDigit (tl r1) else r1)
            in if ip = [] \<and> fp = [] then NaN
               else
                 (let mv = (of_int (digits_value ip) + of_int (digits_value fp) / 10 ^ length fp)
                             * 10 powi exponent_part r2
                  in if mv = 0 then (if neg then NegZero else Finite 0)
                     else fround (if neg then - mv else mv))))"

section \<open>\<open>Number.prototype.toLocaleString('de-DE')\<close>\<close>

text \<open>
  With no options the number is shown with at most three fraction digits, the integer
  part grouped in threes by \<open>.\<close>, the fraction after a \<open>,\<close> without trailing zeros, and a
  negative number (also \<open>-0\<close>) with \<open>-\<close>.

  The digits are those of the shortest decimal that reads back as the Number (the
  digits that \<open>Number.prototype.toString\<close> gives: as few significant digits as possible,
  and among these the decimal closest to the Number, the even one at a tie), rounded to
  three fraction digits, half away from zero. So \<open>1e25\<close> is shown as 1 followed by 25
  zeros, not with the digits of the binary value.
\<close>

function ndigits :: "int \<Rightarrow> int" where
  \<comment> \<open>the number of decimal digits of a positive integer\<close>
  "ndigits m = (if m < 10 then 1 else 1 + ndigits (m div 10))"
  by pat_completeness auto
termination
  by (relation "measure nat") auto

declare ndigits.simps [simp del]

definition ilog10 :: "rat \<Rightarrow> int" where
  \<comment> \<open>\<open>\<lfloor>log\<^sub>1\<^sub>0 a\<rfloor>\<close> for \<open>a > 0\<close>\<close>
  "ilog10 a = (if 1 \<le> a then ndigits \<lfloor>a\<rfloor> - 1 else - ndigits (\<lceil>1 / a\<rceil> - 1))"

definition shortest_at :: "int \<Rightarrow> rat \<Rightarrow> rat option" where
  \<comment> \<open>the decimal of \<open>k\<close> significant digits that reads back as \<open>a > 0\<close>, if there is one:
      only the two neighbours of \<open>a\<close> among the decimals of \<open>k\<close> digits can be closest\<close>
  "shortest_at k a =
     (let u = 10 powi (ilog10 a - k + 1);
          n = \<lfloor>a / u\<rfloor>;
          lo = of_int n * u;
          hi = lo + u
      in if rd lo = a \<and> rd hi = a
         then Some (if a - lo < hi - a \<or> (a - lo = hi - a \<and> even n) then lo else hi)
         else if rd lo = a then Some lo
         else if rd hi = a then Some hi
         else None)"

function shortest_from :: "int \<Rightarrow> rat \<Rightarrow> rat" where
  \<comment> \<open>17 significant digits tell every binary64 value from its neighbours, so the search
      ends with a decimal; the value itself stands in to make the function total\<close>
  "shortest_from k a = (case shortest_at k a of
       Some s \<Rightarrow> s
     | None \<Rightarrow> if 17 \<le> k then a else shortest_from (k + 1) a)"
  by pat_completeness auto
termination
  by (relation "measure (\<lambda>(k, a). nat (17 - k))") auto

declare shortest_from.simps [simp del]

definition shortest_decimal :: "rat \<Rightarrow> rat" where
  \<comment> \<open>for the magnitude \<open>a \<ge> 0\<close> of a finite Number\<close>
  "shortest_decimal a = (if a = 0 then 0 else shortest_from 1 a)"

definition pad3 :: "int \<Rightarrow> jsstring" where
  "pad3 n = [digit_char (n div 100 mod 10), digit_char (n div 10 mod 10), digit_char (n mod 10)]"

function grouped :: "int \<Rightarrow> jsstring" where
  "grouped n = (if n < 1000 then decimal n else grouped (n div 1000) @ 0x2E # pad3 (n mod 1000))"
  by pat_completeness auto
termination
  by (relation "measure nat") auto

declare grouped.simps [simp del]

definition strip_zeros :: "jsstring \<Rightarrow> jsstring" where
  "strip_zeros ds = rev (dropWhile (\<lambda>c. c = 0x30) (rev ds))"

definition fraction3 :: "int \<Rightarrow> jsstring" where
  "fraction3 f = (if f = 0 then [] else 0x2C # strip_zeros (pad3 f))"

definition toLocaleString_deDE :: "number \<Rightarrow> jsstring" where
  "toLocaleString_deDE x = (case x of
       NaN \<Rightarrow> str ''NaN''
     | PosInfinity \<Rightarrow> [0x221E]
     | NegInfinity \<Rightarrow> [0x2D, 0x221E]
     | NegZero \<Rightarrow> str ''-0''
     | Finite r \<Rightarrow>
         (let m = \<lfloor>shortest_decimal \<bar>r\<bar> * 1000 + 1 / 2\<rfloor>
          in (if r < 0 then [0x2D] else []) @ grouped (m div 1000) @ fraction3 (m mod 1000)))"

section \<open>The factory and its amount conversions\<close>

datatype currency = usd | rub | gbp | eur | usdt

datatype amount_type = integerWithDecimals | floatNumber

datatype decimal_policy = hideIfZero | showAlways | hideAlways

datatype symbol_position = symbol_before | symbol_after

datatype amount = Num number | BigInt int

definition possibleCurrencySymbolMap :: "currency \<rightharpoonup> jsstring" where
  "possibleCurrencySymbolMap =
     [usd \<mapsto> [0x24], rub \<mapsto> [0x20BD], gbp \<mapsto> [0xA3], eur \<mapsto> [0x20AC], usdt \<mapsto> [0x20AE]]"

record params =
  currencies :: "currency list"
  p_defaultAmountType :: "amount_type option"
  p_defaultCurrency :: "currency option"
  p_defaultDecimalPoint :: "jsstring option"
  p_defaultDecimalPolicy :: "decimal_policy option"
  p_defaultThousandsSeparator :: "jsstring option"
  p_defaultSymbolPosition :: "symbol_position option"
  p_defaultSymbolDelimiter :: "jsstring option"
  p_currencySymbolMap :: "(currency \<rightharpoonup> jsstring) option"

record things =
  defaultAmountType :: amount_type
  defaultCurrency :: "currency option"
  defaultDecimalPoint :: jsstring
  defaultDecimalPolicy :: decimal_policy
  defaultThousandsSeparator :: jsstring
  defaultSymbolPosition :: symbol_position
  defaultSymbolDelimiter :: jsstring
  currencySymbolMap :: "currency \<rightharpoonup> jsstring"

definition or_default :: "'a option \<Rightarrow> 'a \<Rightarrow> 'a" where
  \<comment> \<open>a destructuring default: used when the property is absent or undefined\<close>
  "or_default v d = (case v of None \<Rightarrow> d | Some a \<Rightarrow> a)"

definition createMoneyThings :: "params \<Rightarrow> things" where
  \<comment> \<open>the configuration the returned functions close over; \<open>currencies[0]\<close> of an empty list
      is undefined; the default thousands separator in the source is the one character
      U+00A0, a no-break space\<close>
  "createMoneyThings p = \<lparr>
     defaultAmountType = or_default (p_defaultAmountType p) integerWithDecimals,
     defaultCurrency = (case p_defaultCurrency p of
                          None \<Rightarrow> (case currencies p of [] \<Rightarrow> None | c # _ \<Rightarrow> Some c)
                        | Some c \<Rightarrow> Some c),
     defaultDecimalPoint = or_default (p_defaultDecimalPoint p) (str '',''),
     defaultDecimalPolicy = or_default (p_defaultDecimalPolicy p) hideIfZero,
     defaultThousandsSeparator = or_default (p_defaultThousandsSeparator p) [0xA0],
     defaultSymbolPosition = or_default (p_defaultSymbolPosition p) symbol_before,
     defaultSymbolDelimiter = or_default (p_defaultSymbolDelimiter p) [],
     currencySymbolMap = or_default (p_currencySymbolMap p) possibleCurrencySymbolMap \<rparr>"

definition only_currencies :: "currency list \<Rightarrow> params" where
  \<comment> \<open>\<open>createMoneyThings({ currencies })\<close>: every other property absent\<close>
  "only_currencies cs = \<lparr> currencies = cs, p_defaultAmountType = None, p_defaultCurrency = None,
     p_defaultDecimalPoint = None, p_defaultDecimalPolicy = None,
     p_defaultThousandsSeparator = None, p_defaultSymbolPosition = None,
     p_defaultSymbolDelimiter = None, p_currencySymbolMap = None \<rparr>"

definition integerWithDecimalsToFloatNumber :: "amount \<Rightarrow> number" where
  "integerWithDecimalsToFloatNumber a = (case a of
       BigInt n \<Rightarrow> divide_pos (Number_of_bigint n) 100
     | Num x \<Rightarrow> divide_pos x 100)"

definition floatNumberToIntegerWithDecimals :: "number \<Rightarrow> number" where
  "floatNumberToIntegerWithDecimals x = Math_round (times_pos x 100)"

definition amountNiceSuitableString :: "decimal_policy \<Rightarrow> jsstring \<Rightarrow> jsstring" where
  \<comment> \<open>the immediately-invoked function of lines 50 to 72\<close>
  "amountNiceSuitableString policy amountNiceString =
     (let parts = split_on 0x2C amountNiceString;
          nondecimals = hd parts;
          decimals = (if 1 < length parts then Some (parts ! 1) else None);
          no_decimals = (case decimals of None \<Rightarrow> True | Some d \<Rightarrow> d = []);
          the_decimals = (case decimals of None \<Rightarrow> [] | Some d \<Rightarrow> d)
      in case policy of
           showAlways \<Rightarrow>
             if no_decimals then amountNiceString @ str '',00''
             else if length the_decimals = 1 then amountNiceString @ str ''0''
             else nondecimals @ str '','' @ take 2 the_decimals
         | hideAlways \<Rightarrow> nondecimals
         | hideIfZero \<Rightarrow>
             if no_decimals then nondecimals
             else if length the_decimals = 1 then amountNiceString @ str ''0''
             else nondecimals @ str '','' @ take 2 the_decimals)"

definition integerWithDecimalsToAmountString ::
  "things \<Rightarrow> amount \<Rightarrow> jsstring option \<Rightarrow> jsstring option \<Rightarrow> decimal_policy option \<Rightarrow> jsstring"
where
  "integerWithDecimalsToAmountString t amount decimalPoint thousandsSeparator decimalPolicy =
     (let dp = or_default decimalPoint (defaultDecimalPoint t);
          ts = or_default thousandsSeparator (defaultThousandsSeparator t);
          policy = or_default decimalPolicy (defaultDecimalPolicy t);
          amountFloatNumber = integerWithDecimalsToFloatNumber amount;
          amountNiceString = toLocaleString_deDE amountFloatNumber
      in replace_char_global 0x2C dp
           (replace_char_global 0x2E ts (amountNiceSuitableString policy amountNiceString)))"

definition amountStringToIntegerWithDecimals ::
  "things \<Rightarrow> jsstring \<Rightarrow> jsstring option \<Rightarrow> jsstring option \<Rightarrow> number completion"
where
  "amountStringToIntegerWithDecimals t amountString decimalPoint thousandsSeparator =
     (let dp = or_default decimalPoint (defaultDecimalPoint t);
          ts = or_default thousandsSeparator (defaultThousandsSeparator t)
      in case RegExp_new ts of
           Throws e \<Rightarrow> Throws e
         | Unmodelled \<Rightarrow> Unmodelled
         | Returns re \<Rightarrow>
             (let amountStringWithoutThousandsSeparator = replace_regexp_empty re amountString;
                  amountStringWithoutDecimalPoint =
                    replace_first dp (str ''.'') amountStringWithoutThousandsSeparator
              in Returns (Math_round (times_pos (parseFloat amountStringWithoutDecimalPoint) 100))))"

definition floatNumberToAmountString ::
  "things \<Rightarrow> number \<Rightarrow> jsstring option \<Rightarrow> jsstring option \<Rightarrow> decimal_policy option \<Rightarrow> jsstring"
where
  "floatNumberToAmountString t amount decimalPoint thousandsSeparator decimalPolicy =
     (let dp = or_default decimalPoint (defaultDecimalPoint t);
          ts = or_default thousandsSeparator (defaultThousandsSeparator t);
          policy = or_default decimalPolicy (defaultDecimalPolicy t);
          amountWithDecimals = floatNumberToIntegerWithDecimals amount
      in integerWithDecimalsToAmountString t (Num amountWithDecimals) (Some dp) (Some ts)
           (Some policy))"

definition amountStringToFloatNumber ::
  "things \<Rightarrow> jsstring \<Rightarrow> jsstring option \<Rightarrow> jsstring option \<Rightarrow> number completion"
where
  "amountStringToFloatNumber t amountString decimalPoint thousandsSeparator =
     (let dp = or_default decimalPoint (defaultDecimalPoint t);
          ts = or_default thousandsSeparator (defaultThousandsSeparator t)
      in case amountStringToIntegerWithDecimals t amountString (Some dp) (Some ts) of
           Returns amountWithDecimals \<Rightarrow>
             Returns (integerWithDecimalsToFloatNumber (Num amountWithDecimals))
         | Throws e \<Rightarrow> Throws e
         | Unmodelled \<Rightarrow> Unmodelled)"

section \<open>\<open>toMoney\<close>\<close>





section \<open>The validators\<close>

text \<open>
  \<open>amountStringRegex\<close> is anchored at both ends and has neither back-references nor
  look-around, so \<open>test\<close> decides membership in its language; the matcher below decides
  it by derivatives.
\<close>

datatype char_class = Ch jschar | ClassDigit | ClassSpace

fun class_has :: "char_class \<Rightarrow> jschar \<Rightarrow> bool" where
  "class_has (Ch a) c = (c = a)"
| "class_has ClassDigit c = isDigit c"
| "class_has ClassSpace c = isWhiteSpace c"

datatype rx = Zero | One | Atom char_class | Alt rx rx | Seq rx rx | Star rx

definition Opt :: "rx \<Rightarrow> rx" where
  "Opt r = Alt r One"

fun nullable :: "rx \<Rightarrow> bool" where
  "nullable Zero = False"
| "nullable One = True"
| "nullable (Atom a) = False"
| "nullable (Alt r s) = (nullable r \<or> nullable s)"
| "nullable (Seq r s) = (nullable r \<and> nullable s)"
| "nullable (Star r) = True"

fun deriv :: "jschar \<Rightarrow> rx \<Rightarrow> rx" where
  "deriv c Zero = Zero"
| "deriv c One = Zero"
| "deriv c (Atom a) = (if class_has a c then One else Zero)"
| "deriv c (Alt r s) = Alt (deriv c r) (deriv c s)"
| "deriv c (Seq r s) =
     (if nullable r then Alt (Seq (deriv c r) s) (deriv c s) else Seq (deriv c r) s)"
| "deriv c (Star r) = Seq (deriv c r) (Star r)"

definition rx_test :: "rx \<Rightarrow> jsstring \<Rightarrow> bool" where
  "rx_test r s = nullable (foldl (\<lambda>r c. deriv c r) r s)"

definition amount_rx :: "jschar \<Rightarrow> rx" where
  \<comment> \<open>\<open>^\s*\d(\s*\d*)*(P\d{0,2})?$\<close> for the decimal point \<open>P\<close>\<close>
  "amount_rx point =
     Seq (Star (Atom ClassSpace))
      (Seq (Atom ClassDigit)
        (Seq (Star (Seq (Star (Atom ClassSpace)) (Star (Atom ClassDigit))))
          (Opt (Seq (Atom (Ch point))
                 (Opt (Seq (Atom ClassDigit) (Opt (Atom ClassDigit))))))))"

definition amountStringRegex :: "things \<Rightarrow> rx completion" where
  \<comment> \<open>A decimal point that is not one code unit is replaced by \<open>.\<close>, and \<open>.\<close> is escaped; any
      other is spliced into the pattern as it is, which is modelled when it is neither a
      syntax character nor a surrogate.\<close>
  "amountStringRegex t =
     (let safeDefaultDecimalPoint =
            (if length (defaultDecimalPoint t) = 1 then defaultDecimalPoint t else str ''.'')
      in if safeDefaultDecimalPoint = str ''.'' then Returns (amount_rx 0x2E)
         else if isSyntaxCharacter (hd safeDefaultDecimalPoint)
                 \<or> (0xD800 \<le> hd safeDefaultDecimalPoint \<and> hd safeDefaultDecimalPoint \<le> 0xDFFF)
           then Unmodelled
         else Returns (amount_rx (hd safeDefaultDecimalPoint)))"

definition refined_number :: "things \<Rightarrow> jsstring \<Rightarrow> number" where
  \<comment> \<open>\<open>parseFloat(value.replace(/\s/g, '').replace(defaultThousandsSeparator, ''))\<close>\<close>
  "refined_number t v =
     parseFloat (replace_first (defaultThousandsSeparator t) []
                   (filter (\<lambda>c. \<not> isWhiteSpace c) v))"

definition zAmountRaw :: "things \<Rightarrow> jsstring \<Rightarrow> jsstring completion" where
  \<comment> \<open>\<open>zAmountRaw.parse(v)\<close>: the value, or a ZodError when the pattern or the refinement
      rejects it\<close>
  "zAmountRaw t v = (case amountStringRegex t of
       Returns re \<Rightarrow>
         if rx_test re v
            \<and> (let number = refined_number t v in \<not> isNaN number \<and> num_le (Finite 0) number)
         then Returns v else Throws ZodError
     | Throws e \<Rightarrow> Throws e
     | Unmodelled \<Rightarrow> Unmodelled)"

definition zAmountRawLimited :: "things \<Rightarrow> number \<Rightarrow> number \<Rightarrow> jsstring \<Rightarrow> jsstring completion"
where
  \<comment> \<open>\<open>niceMin\<close> and \<open>niceMax\<close> only feed the message of the error\<close>
  "zAmountRawLimited t minimum maximum v = (case zAmountRaw t v of
       Returns v' \<Rightarrow>
         (let number = refined_number t v'
          in if \<not> isNaN number \<and> num_le (divide_pos minimum 100) number
                \<and> num_le number (divide_pos maximum 100)
             then Returns v' else Throws ZodError)
     | Throws e \<Rightarrow> Throws e
     | Unmodelled \<Rightarrow> Unmodelled)"

definition zAmountIntegerWithDecimals :: "things \<Rightarrow> jsstring \<Rightarrow> number completion" where
  "zAmountIntegerWithDecimals t v = (case zAmountRaw t v of
       Returns v' \<Rightarrow> amountStringToIntegerWithDecimals t v' None None
     | Throws e \<Rightarrow> Throws e
     | Unmodelled \<Rightarrow> Unmodelled)"

definition zAmountIntegerWithDecimalsLimited ::
  "things \<Rightarrow> number \<Rightarrow> number \<Rightarrow> jsstring \<Rightarrow> number completion"
where
  "zAmountIntegerWithDecimalsLimited t minimum maximum v = (case zAmountRawLimited t minimum maximum v of
       Returns v' \<Rightarrow> amountStringToIntegerWithDecimals t v' None None
     | Throws e \<Rightarrow> Throws e
     | Unmodelled \<Rightarrow> Unmodelled)"

definition zAmountFloatNumber :: "things \<Rightarrow> jsstring \<Rightarrow> number completion" where
  "zAmountFloatNumber t v = (case zAmountRaw t v of
       Returns v' \<Rightarrow> amountStringToFloatNumber t v' None None
     | Throws e \<Rightarrow> Throws e
     | Unmodelled \<Rightarrow> Unmodelled)"

definition zAmountFloatNumberLimited ::
  "things \<Rightarrow> number \<Rightarrow> number \<Rightarrow> jsstring \<Rightarrow> number completion"
where
  "zAmountFloatNumberLimited t minimum maximum v = (case zAmountRawLimited t minimum maximum v of
       Returns v' \<Rightarrow> amountStringToFloatNumber t v' None None
     | Throws e \<Rightarrow> Throws e
     | Unmodelled \<Rightarrow> Unmodelled)"

section \<open>The formatter of the other revision\<close>

text \<open>
  \<open>src/unnamed/part_000\<close> chooses a rounded or unrounded float by \<open>toFixed(2)\<close> and the
  policy, and localizes that. \<open>toFixed(2)\<close> rounds half away from zero at the second
  fraction digit; from \<open>10\<^sup>2\<^sup>1\<close> on it prints in exponent notation, which is not modelled.
\<close>

definition toFixed2 :: "number \<Rightarrow> jsstring completion" where
  "toFixed2 x = (case x of
       NaN \<Rightarrow> Returns (str ''NaN'')
     | PosInfinity \<Rightarrow> Returns (str ''Infinity'')
     | NegInfinity \<Rightarrow> Returns (str ''-Infinity'')
     | NegZero \<Rightarrow> Returns (str ''0.00'')
     | Finite r \<Rightarrow>
         if 10 ^ 21 \<le> \<bar>r\<bar> then Unmodelled
         else (let m = \<lfloor>\<bar>r\<bar> * 100 + 1 / 2\<rfloor>
               in Returns ((if r < 0 then [0x2D] else []) @ decimal (m div 100) @ 0x2E #
                             [digit_char (m mod 100 div 10), digit_char (m mod 10)])))"

definition integerWithDecimalsToAmountString_part_000 ::
  "things \<Rightarrow> amount \<Rightarrow> jsstring option \<Rightarrow> jsstring option \<Rightarrow> decimal_policy option
     \<Rightarrow> jsstring completion"
where
  "integerWithDecimalsToAmountString_part_000 t amount decimalPoint thousandsSeparator
       decimalPolicy =
     (let dp = or_default decimalPoint (defaultDecimalPoint t);
          ts = or_default thousandsSeparator (defaultThousandsSeparator t);
          policy = or_default decimalPolicy (defaultDecimalPolicy t);
          amountFloatNumber = integerWithDecimalsToFloatNumber amount
      in case toFixed2 amountFloatNumber of
           Returns amountNativeString \<Rightarrow>
             (let decimalsExist = \<not> ends_with (str ''.00'') amountNativeString;
                  amountSuitableFloatNumber = (case policy of
                      showAlways \<Rightarrow> amountFloatNumber
                    | hideAlways \<Rightarrow> Math_round amountFloatNumber
                    | hideIfZero \<Rightarrow>
                        if decimalsExist then amountFloatNumber
                        else Math_round amountFloatNumber);
                  amountNiceString = toLocaleString_deDE amountSuitableFloatNumber
              in Returns (replace_char_global 0x2C dp
                            (replace_char_global 0x2E ts amountNiceString)))
         | Throws e \<Rightarrow> Throws e
         | Unmodelled \<Rightarrow> Unmodelled)"

section \<open>Numeric strings\<close>

text \<open>
  Two readings of a string as a number. \<open>has_numeric_prefix\<close>: after leading white space
  and an optional sign the string starts with a digit, with \<open>.\<close> and a digit, or with
  \<open>Infinity\<close>. \<open>is_numeric_string\<close>: the whole string, but for white space around it, is
  one decimal literal, as \<open>Number(s)\<close> requires of a decimal string.
\<close>

definition unsigned :: "jsstring \<Rightarrow> jsstring" where
  "unsigned t = (if t \<noteq> [] \<and> (hd t = 0x2D \<or> hd t = 0x2B) then tl t else t)"

definition has_numeric_prefix :: "jsstring \<Rightarrow> bool" where
  "has_numeric_prefix s =
     (let u = unsigned (dropWhile isWhiteSpace s)
      in starts_with (str ''Infinity'') u
         \<or> (u \<noteq> [] \<and> isDigit (hd u))
         \<or> (u \<noteq> [] \<and> hd u = 0x2E \<and> tl u \<noteq> [] \<and> isDigit (hd (tl u))))"

definition after_exponent :: "jsstring \<Rightarrow> jsstring" where
  \<comment> \<open>what follows a complete exponent part at the head of \<open>r\<close>, or \<open>r\<close> itself\<close>
  "after_exponent r = (case r of
       [] \<Rightarrow> []
     | c # r' \<Rightarrow>
         if (c = 0x65 \<or> c = 0x45) \<and> takeWhile isDigit (unsigned r') \<noteq> []
         then dropWhile isDigit (unsigned r') else r)"

definition is_numeric_string :: "jsstring \<Rightarrow> bool" where
  "is_numeric_string s =
     (let u = unsigned (dropWhile isWhiteSpace s)
      in if starts_with (str ''Infinity'') u then list_all isWhiteSpace (drop 8 u)
         else
           (let ip = takeWhile isDigit u;
                r1 = dropWhile isDigit u;
                has_dot = (r1 \<noteq> [] \<and> hd r1 = 0x2E);
                fp = (if has_dot then takeWhile isDigit (tl r1) else []);
                r2 = (if has_dot then dropWhile isDigit (tl r1) else r1)
            in (ip \<noteq> [] \<or> fp \<noteq> []) \<and> list_all isWhiteSpace (after_exponent r2)))"

section \<open>The language of a pattern\<close>

inductive_set star :: "jsstring set \<Rightarrow> jsstring set" for A :: "jsstring set" where
  star_nil: "[] \<in> star A"
| star_step: "u \<in> A \<Longrightarrow> v \<in> star A \<Longrightarrow> u @ v \<in> star A"

fun lang :: "rx \<Rightarrow> jsstring set" where
  "lang Zero = {}"
| "lang One = {[]}"
| "lang (Atom a) = {[c] | c. class_has a c}"
| "lang (Alt r s) = lang r \<union> lang s"
| "lang (Seq r s) = {u @ v | u v. u \<in> lang r \<and> v \<in> lang s}"
| "lang (Star r) = star (lang r)"

definition amount_shape :: "jschar \<Rightarrow> jsstring \<Rightarrow> bool" where
  \<comment> \<open>The accepted shape in the words of the specification: optional leading white space,
      digit groups with white space among them (the first character of them a digit),
      then optionally the decimal point and at most two digits.\<close>
  "amount_shape point s \<longleftrightarrow>
     (\<exists>ws d body frac.
        s = ws @ d # body @ frac
        \<and> (\<forall>c \<in> set ws. isWhiteSpace c)
        \<and> isDigit d
        \<and> (\<forall>c \<in> set body. isDigit c \<or> isWhiteSpace c)
        \<and> (frac = [] \<or> (\<exists>ds. frac = point # ds \<and> length ds \<le> 2 \<and> (\<forall>c \<in> set ds. isDigit c))))"

section \<open>Reference renderings\<close>

text \<open>
  What a formatted amount should look like, written from the amount itself: the sign,
  the whole units \<open>\<bar>n\<bar> div 100\<close> in groups of three joined by the thousands separator,
  then, unless the policy hides them, the decimal point and the two digits of
  \<open>\<bar>n\<bar> mod 100\<close>.
\<close>

definition sign_str :: "int \<Rightarrow> jsstring" where
  "sign_str n = (if n < 0 then [0x2D] else [])"

definition two_digits :: "int \<Rightarrow> jsstring" where
  "two_digits f = [digit_char (f div 10), digit_char (f mod 10)]"

function grouped_by :: "jsstring \<Rightarrow> int \<Rightarrow> jsstring" where
  "grouped_by sep n =
     (if n < 1000 then decimal n else grouped_by sep (n div 1000) @ sep @ pad3 (n mod 1000))"
  by pat_completeness auto
termination
  by (relation "measure (\<lambda>(sep, n). nat n)") auto

declare grouped_by.simps [simp del]

definition plain :: "jsstring \<Rightarrow> bool" where
  \<comment> \<open>no \<open>$\<close>, so that the text stands for itself as a replacement\<close>
  "plain t \<longleftrightarrow> 0x24 \<notin> set t"

definition rendering :: "jsstring \<Rightarrow> jsstring \<Rightarrow> decimal_policy \<Rightarrow> int \<Rightarrow> jsstring" where
  "rendering dp ts policy n =
     sign_str n @ grouped_by ts (\<bar>n\<bar> div 100) @
     (if policy = hideAlways \<or> (policy = hideIfZero \<and> n mod 100 = 0) then []
      else dp @ two_digits (\<bar>n\<bar> mod 100))"

text \<open>
  Where \<open>Math.round\<close> of the float agrees with dropping the cents: below 50 cents, and
  at exactly 50 cents of a negative amount (the tie goes up).
\<close>

definition rounds_to_units :: "int \<Rightarrow> bool" where
  "rounds_to_units n \<longleftrightarrow> (0 \<le> n \<and> n mod 100 < 50) \<or> (n < 0 \<and> \<bar>n\<bar> mod 100 \<le> 50)"

definition revisions_agree :: "decimal_policy \<Rightarrow> int \<Rightarrow> bool" where
  \<comment> \<open>where the formatter of \<open>src/src/index.ts\<close> and that of \<open>src/unnamed/part_000\<close> are
      shown to give the same string\<close>
  "revisions_agree policy n = (case policy of
       showAlways \<Rightarrow> n mod 10 \<noteq> 0
     | hideIfZero \<Rightarrow> n mod 10 \<noteq> 0 \<or> n mod 100 = 0
     | hideAlways \<Rightarrow> rounds_to_units n)"

section \<open>The shape of a localized number\<close>

text \<open>
  The text that \<open>toLocaleString('de-DE')\<close> gives, in two parts: \<open>A\<close>, free of commas (the
  sign, the grouped integer part, or \<open>NaN\<close> or the infinity sign), and \<open>F\<close>, empty or a
  comma followed by one to three digits.
\<close>

definition localized_parts :: "jsstring \<Rightarrow> jsstring \<Rightarrow> bool" where
  "localized_parts A F \<longleftrightarrow>
     0x2C \<notin> set A
     \<and> (F = [] \<or> (hd F = 0x2C \<and> tl F \<noteq> [] \<and> length (tl F) \<le> 3
                    \<and> (\<forall>c \<in> set (tl F). isDigit c)))"

section \<open>Rounding to binary64\<close>

lemma quotient_of_abs_pos:
  assumes "x \<noteq> 0" "quotient_of \<bar>x\<bar> = (a, b)"
  shows "0 < a" "0 < b" "\<bar>x\<bar> = of_int a / of_int b"
proof -
  show b: "0 < b" using assms(2) quotient_of_denom_pos by blast
  show eq: "\<bar>x\<bar> = of_int a / of_int b" using assms(2) quotient_of_div by blast
  have "0 < \<bar>x\<bar>" using assms(1) by simp
  then show "0 < a" using b eq
    by (simp add: zero_less_divide_iff)
qed

lemma ilog2_bounds:
  assumes "x \<noteq> 0"
  shows "2 powi ilog2 x \<le> \<bar>x\<bar>" "\<bar>x\<bar> < 2 powi (ilog2 x + 1)"
proof -
  obtain a b where q: "quotient_of \<bar>x\<bar> = (a, b)" by (cases "quotient_of \<bar>x\<bar>")
  note ab = quotient_of_abs_pos[OF assms q]
  define la where "la = floorlog 2 (nat a)"
  define lb where "lb = floorlog 2 (nat b)"
  define k where "k = int la - int lb"
  have la: "2 ^ (la - 1) \<le> nat a" "nat a < 2 ^ la"
    using floorlog_bounds[of "nat a" 2] ab(1) by (simp_all add: la_def)
  have lb: "2 ^ (lb - 1) \<le> nat b" "nat b < 2 ^ lb"
    using floorlog_bounds[of "nat b" 2] ab(2) by (simp_all add: lb_def)
  have la0: "0 < la" using la(2) ab(1) by (cases la) auto
  have lb0: "0 < lb" using lb(2) ab(2) by (cases lb) auto
  have ra: "(2::rat) ^ (la - 1) \<le> of_int a" "(of_int a :: rat) < 2 ^ la"
  proof -
    have "(of_nat (2 ^ (la - 1)) :: rat) \<le> of_nat (nat a)" using la(1) of_nat_le_iff by blast
    then show "(2::rat) ^ (la - 1) \<le> of_int a" using ab(1) by simp
    have "(of_nat (nat a) :: rat) < of_nat (2 ^ la)" using la(2) of_nat_less_iff by blast
    then show "(of_int a :: rat) < 2 ^ la" using ab(1) by simp
  qed
  have rb: "(2::rat) ^ (lb - 1) \<le> of_int b" "(of_int b :: rat) < 2 ^ lb"
  proof -
    have "(of_nat (2 ^ (lb - 1)) :: rat) \<le> of_nat (nat b)" using lb(1) of_nat_le_iff by blast
    then show "(2::rat) ^ (lb - 1) \<le> of_int b" using ab(2) by simp
    have "(of_nat (nat b) :: rat) < of_nat (2 ^ lb)" using lb(2) of_nat_less_iff by blast
    then show "(of_int b :: rat) < 2 ^ lb" using ab(2) by simp
  qed
  have bpos: "(0::rat) < of_int b" using ab(2) by simp
  have up: "\<bar>x\<bar> < 2 powi (k + 1)"
  proof -
    have "\<bar>x\<bar> * of_int b = of_int a" using ab(3) bpos by simp
    also have "\<dots> < 2 ^ la" by (rule ra(2))
    also have "\<dots> = 2 powi (k + 1) * 2 ^ (lb - 1)"
    proof -
      have e: "k + 1 + int (lb - 1) = int la" using lb0 by (simp add: k_def)
      have "(2::rat) powi (k + 1) * 2 powi (int (lb - 1)) = 2 powi (k + 1 + int (lb - 1))"
        by (simp add: power_int_add)
      also have "\<dots> = 2 powi (int la)" by (simp only: e)
      finally show ?thesis by simp
    qed
    also have "\<dots> \<le> 2 powi (k + 1) * of_int b"
      using rb(1) by (simp add: mult_left_mono)
    finally show ?thesis using bpos by simp
  qed
  have lo: "2 powi (k - 1) \<le> \<bar>x\<bar>"
  proof -
    have "2 powi (k - 1) * of_int b \<le> 2 powi (k - 1) * (2::rat) ^ lb"
      using rb(2) by (simp add: mult_left_mono)
    also have "\<dots> = 2 ^ (la - 1)"
    proof -
      have e: "k - 1 + int lb = int (la - 1)" using la0 by (simp add: k_def)
      have "(2::rat) powi (k - 1) * 2 powi (int lb) = 2 powi (k - 1 + int lb)"
        by (simp add: power_int_add)
      also have "\<dots> = 2 powi (int (la - 1))" by (simp only: e)
      finally show ?thesis by simp
    qed
    also have "\<dots> \<le> of_int a" by (rule ra(1))
    also have "\<dots> = \<bar>x\<bar> * of_int b" using ab(3) bpos by simp
    finally show ?thesis using bpos by simp
  qed
  have il: "ilog2 x = (if 2 powi k \<le> \<bar>x\<bar> then k else k - 1)"
    by (simp add: ilog2_def q Let_def k_def la_def lb_def bitlen_def)
  show "2 powi ilog2 x \<le> \<bar>x\<bar>" using il lo by auto
  show "\<bar>x\<bar> < 2 powi (ilog2 x + 1)" using il up by (auto simp: not_le)
qed

lemma powi2_mono: "a \<le> b \<Longrightarrow> (2::rat) powi a \<le> 2 powi b"
  by (rule power_int_increasing) simp_all

lemma powi2_less_imp: "(2::rat) powi a < 2 powi b \<Longrightarrow> a < b"
  using powi2_mono[of b a] by (cases "a < b") auto

lemma powi2_le_abs_nonzero:
  assumes "2 powi k \<le> \<bar>x::rat\<bar>"
  shows "x \<noteq> 0"
proof
  assume "x = 0"
  with assms have "(2::rat) powi k \<le> 0" by simp
  moreover have "(0::rat) < 2 powi k" by simp
  ultimately show False by linarith
qed

lemma ilog2_less:
  assumes "x \<noteq> 0" "\<bar>x\<bar> < 2 powi k"
  shows "ilog2 x < k"
proof -
  have "(2::rat) powi ilog2 x < 2 powi k" using ilog2_bounds(1)[OF assms(1)] assms(2) by linarith
  then show ?thesis by (rule powi2_less_imp)
qed

lemma ilog2_ge:
  assumes "2 powi k \<le> \<bar>x\<bar>"
  shows "k \<le> ilog2 x"
proof -
  have x0: "x \<noteq> 0" using assms(1) by (rule powi2_le_abs_nonzero)
  have "(2::rat) powi k < 2 powi (ilog2 x + 1)" using ilog2_bounds(2)[OF x0] assms by linarith
  then have "k < ilog2 x + 1" by (rule powi2_less_imp)
  then show ?thesis by simp
qed

lemma round_half_even_err: "\<bar>of_int (round_half_even y) - y\<bar> \<le> 1 / 2"
proof -
  have "of_int \<lfloor>y\<rfloor> \<le> y" "y < of_int \<lfloor>y\<rfloor> + 1" by linarith+
  then show ?thesis
    by (auto simp: round_half_even_def Let_def abs_le_iff)
qed

lemma round_half_even_int [simp]: "round_half_even (of_int n) = n"
  by (simp add: round_half_even_def)

text \<open>The rounding error of a normal number: half a unit in the last place.\<close>

lemma rd_error:
  assumes "x \<noteq> 0" "- 1022 \<le> ilog2 x"
  shows "\<bar>rd x - x\<bar> \<le> 2 powi (ilog2 x - 53)"
proof -
  define q :: rat where "q = 2 powi (ilog2 x - 52)"
  have q0: "0 < q" by (simp add: q_def)
  have r: "rd x = of_int (round_half_even (x / q)) * q"
    using assms by (simp add: rd_def q_def max_def Let_def)
  have "\<bar>rd x - x\<bar> = \<bar>of_int (round_half_even (x / q)) - x / q\<bar> * q"
  proof -
    have "rd x - x = (of_int (round_half_even (x / q)) - x / q) * q"
      using q0 by (simp add: r algebra_simps)
    then show ?thesis using q0 by (simp add: abs_mult)
  qed
  also have "\<dots> \<le> (1 / 2) * q"
    using round_half_even_err[of "x / q"] q0 by (simp add: mult_right_mono)
  also have "\<dots> = 2 powi (ilog2 x - 53)"
  proof -
    have "(2::rat) powi (ilog2 x - 52 - 1) = 2 powi (ilog2 x - 52) / 2 powi 1"
      by (rule power_int_diff) simp
    moreover have "ilog2 x - 52 - 1 = ilog2 x - 53" by simp
    ultimately show ?thesis by (simp add: q_def)
  qed
  finally show ?thesis .
qed

lemma rd_relative_error:
  assumes "2 powi (- 1022) \<le> \<bar>x\<bar>"
  shows "\<bar>rd x - x\<bar> \<le> \<bar>x\<bar> / 2 ^ 53"
proof -
  have x0: "x \<noteq> 0" using assms by (rule powi2_le_abs_nonzero)
  have n: "- 1022 \<le> ilog2 x" using assms by (rule ilog2_ge)
  have "\<bar>rd x - x\<bar> \<le> 2 powi (ilog2 x - 53)" by (rule rd_error[OF x0 n])
  also have "\<dots> = 2 powi ilog2 x / 2 ^ 53"
  proof -
    have "(2::rat) powi (ilog2 x - 53) = 2 powi ilog2 x / 2 powi 53"
      by (rule power_int_diff) simp
    then show ?thesis by simp
  qed
  also have "\<dots> \<le> \<bar>x\<bar> / 2 ^ 53"
    using ilog2_bounds(1)[OF x0] by (simp add: divide_right_mono)
  finally show ?thesis .
qed

text \<open>A multiple of the unit in the last place is not rounded.\<close>

lemma rd_exact:
  assumes "x \<noteq> 0" "x = of_int m * 2 powi (max (ilog2 x) (- 1022) - 52)"
  shows "rd x = x"
proof -
  define q :: rat where "q = 2 powi (max (ilog2 x) (- 1022) - 52)"
  have q0: "q \<noteq> 0" by (simp add: q_def)
  have "x / q = of_int m" using assms(2) q0 unfolding q_def[symmetric] by simp
  then show ?thesis using assms unfolding rd_def q_def[symmetric] by (simp add: Let_def)
qed

lemma of_int_abs_le:
  fixes n :: int
  assumes "\<bar>n\<bar> \<le> b"
  shows "\<bar>of_int n :: rat\<bar> \<le> of_int b"
proof -
  have "(of_int \<bar>n\<bar> :: rat) \<le> of_int b" using assms by (simp only: of_int_le_iff)
  then show ?thesis by simp
qed

lemma of_int_abs_ge1:
  fixes n :: int
  assumes "n \<noteq> 0"
  shows "1 \<le> \<bar>of_int n :: rat\<bar>"
proof -
  have "1 \<le> \<bar>n\<bar>" using assms by simp
  then have "(of_int 1 :: rat) \<le> of_int \<bar>n\<bar>" by (simp only: of_int_le_iff)
  then show ?thesis by simp
qed

text \<open>Half-integers up to \<open>2\<^sup>5\<^sup>2\<close> in magnitude, so every integer up to \<open>2\<^sup>5\<^sup>2\<close>, are Numbers.\<close>

lemma rd_half_int:
  assumes "\<bar>j\<bar> \<le> 2 ^ 53"
  shows "rd (of_int j / 2) = of_int j / 2"
proof (cases "j = 0")
  case True
  then show ?thesis by (simp add: rd_def)
next
  case False
  define x :: rat where "x = of_int j / 2"
  have x0: "x \<noteq> 0" using False by (simp add: x_def)
  have "1 \<le> \<bar>of_int j :: rat\<bar>" using False by (rule of_int_abs_ge1)
  then have "2 powi (- 1) \<le> \<bar>x\<bar>" by (simp add: x_def)
  then have lo: "- 1 \<le> ilog2 x" by (rule ilog2_ge)
  define e where "e = ilog2 x"
  have mx: "max (ilog2 x) (- 1022) = e" using lo by (simp add: e_def)
  have "\<bar>of_int j :: rat\<bar> \<le> of_int (2 ^ 53)" using assms by (rule of_int_abs_le)
  then have xb: "\<bar>x\<bar> \<le> 2 ^ 52" by (simp add: x_def)
  have pe: "2 powi e \<le> \<bar>x\<bar>" unfolding e_def by (rule ilog2_bounds(1)[OF x0])
  have "(2::rat) powi e \<le> 2 powi 52" using pe xb by simp
  then have e52: "e \<le> 52" using powi2_mono[of 53 e] by (cases "e \<le> 52") auto
  show ?thesis
  proof (cases "e \<le> 51")
    case True
    define i where "i = nat (51 - e)"
    have i: "e - 52 = - 1 - int i" using True by (simp add: i_def)
    have "(2::rat) powi (- 1 - int i) = 2 powi (- 1) / 2 powi (int i)"
      by (rule power_int_diff) simp
    then have "x = of_int (j * 2 ^ i) * 2 powi (e - 52)"
      by (simp add: i x_def)
    then have "rd x = x" using rd_exact[OF x0, of "j * 2 ^ i"] mx by simp
    then show ?thesis by (simp add: x_def)
  next
    case False
    with e52 have e: "e = 52" by simp
    have "\<bar>x\<bar> = 2 ^ 52" using pe xb e by simp
    then have "\<bar>of_int j :: rat\<bar> = of_int (2 ^ 53)" by (simp add: x_def)
    then have "(of_int \<bar>j\<bar> :: rat) = of_int (2 ^ 53)" by simp
    then have "\<bar>j\<bar> = 2 ^ 53" by (simp only: of_int_eq_iff)
    then have "j = 2 ^ 53 \<or> j = - (2 ^ 53)" by linarith
    then have "\<exists>k. j = 2 * k" by (auto intro: exI[of _ "2 ^ 52"] exI[of _ "- (2 ^ 52)"])
    then obtain k where k: "j = 2 * k" by blast
    have "x = of_int k * 2 powi (e - 52)" by (simp add: e x_def k)
    then have "rd x = x" using rd_exact[OF x0, of k] mx by simp
    then show ?thesis by (simp add: x_def)
  qed
qed

lemma rd_of_int:
  assumes "\<bar>n\<bar> \<le> 2 ^ 52"
  shows "rd (of_int n) = of_int n"
proof -
  have "\<bar>2 * n\<bar> \<le> 2 ^ 53" using assms by simp
  then have "rd (of_int (2 * n) / 2) = of_int (2 * n) / 2" by (rule rd_half_int)
  then show ?thesis by simp
qed

lemma powi2_neg1022_le: "(2::rat) powi (- 1022) \<le> 1 / 128"
proof -
  have "(2::rat) powi (- 1022) \<le> 2 powi (- 7)" by (rule powi2_mono) simp
  also have "\<dots> = 1 / 128" by (simp add: power_int_minus_divide)
  finally show ?thesis .
qed

lemma fround_finite:
  assumes "2 powi (- 1022) \<le> \<bar>x\<bar>" "\<bar>x\<bar> \<le> 2 powi 1000"
  shows "fround x = Finite (rd x)" "\<bar>rd x - x\<bar> \<le> \<bar>x\<bar> / 2 ^ 53"
proof -
  show err: "\<bar>rd x - x\<bar> \<le> \<bar>x\<bar> / 2 ^ 53" using assms(1) by (rule rd_relative_error)
  have x0: "x \<noteq> 0" using assms(1) by (rule powi2_le_abs_nonzero)
  have half: "\<bar>x\<bar> / 2 ^ 53 \<le> \<bar>x\<bar> / 2" by (rule divide_left_mono) simp_all
  have "\<bar>x\<bar> / 2 < \<bar>x\<bar>" using x0 by simp
  with err half have lt: "\<bar>rd x - x\<bar> < \<bar>x\<bar>" by linarith
  then have y0: "rd x \<noteq> 0" by auto
  have "\<bar>rd x\<bar> \<le> \<bar>x\<bar> + \<bar>rd x - x\<bar>" by linarith
  also have "\<dots> < 2 * \<bar>x\<bar>" using lt by simp
  also have "\<dots> \<le> 2 * 2 powi 1000" using assms(2) by simp
  also have "\<dots> = 2 powi 1001"
    using power_int_add[of "2::rat" 1 1000] by simp
  also have "\<dots> \<le> 2 powi 1024" by (rule powi2_mono) simp
  finally have "ilog2 (rd x) < 1024" by (rule ilog2_less[OF y0])
  then show "fround x = Finite (rd x)" using y0 by (simp add: fround_def Let_def)
qed

lemma fround_zero [simp]: "fround 0 = Finite 0"
  by (simp add: fround_def rd_def)

text \<open>Numbers of moderate size: the result is finite and within relative error \<open>2\<^sup>-\<^sup>5\<^sup>3\<close>.\<close>

lemma fround_moderate:
  assumes "x = 0 \<or> 1 / 128 \<le> \<bar>x\<bar>" "\<bar>x\<bar> \<le> 2 ^ 60"
  shows "fround x = Finite (rd x)" "\<bar>rd x - x\<bar> \<le> \<bar>x\<bar> / 2 ^ 53"
proof -
  have "fround x = Finite (rd x) \<and> \<bar>rd x - x\<bar> \<le> \<bar>x\<bar> / 2 ^ 53"
  proof (cases "x = 0")
    case True
    then show ?thesis by (simp add: rd_def)
  next
    case False
    with assms(1) powi2_neg1022_le have lo: "2 powi (- 1022) \<le> \<bar>x\<bar>" by linarith
    have "\<bar>x\<bar> \<le> 2 powi 60" using assms(2) by simp
    also have "\<dots> \<le> 2 powi 1000" by (rule powi2_mono) simp
    finally have hi: "\<bar>x\<bar> \<le> 2 powi 1000" .
    from fround_finite[OF lo hi] show ?thesis by simp
  qed
  then show "fround x = Finite (rd x)" "\<bar>rd x - x\<bar> \<le> \<bar>x\<bar> / 2 ^ 53" by simp_all
qed

lemma Number_of_bigint_safe:
  assumes "\<bar>n\<bar> \<le> 2 ^ 52"
  shows "Number_of_bigint n = Finite (of_int n)"
proof -
  define x :: rat where "x = of_int n"
  have r: "rd x = x" unfolding x_def using assms by (rule rd_of_int)
  have a: "x = 0 \<or> 1 / 128 \<le> \<bar>x\<bar>"
  proof (cases "n = 0")
    case True
    then show ?thesis by (simp add: x_def)
  next
    case False
    then have "1 \<le> \<bar>x\<bar>" unfolding x_def by (rule of_int_abs_ge1)
    then show ?thesis by simp
  qed
  have "\<bar>x\<bar> \<le> of_int (2 ^ 52)" unfolding x_def using assms by (rule of_int_abs_le)
  then have b: "\<bar>x\<bar> \<le> 2 ^ 60" by simp
  show ?thesis using fround_moderate(1)[OF a b] r by (simp add: Number_of_bigint_def x_def)
qed

text \<open>An amount of cents as a float: finite, and close to the exact quotient.\<close>

lemma scaled_float:
  fixes n :: int
  assumes "\<bar>n\<bar> \<le> 2 ^ 52"
  defines "d \<equiv> rd (of_int n / 100)"
  shows "divide_pos (Finite (of_int n)) 100 = Finite d"
    and "\<bar>d - of_int n / 100\<bar> \<le> \<bar>of_int n / 100\<bar> / 2 ^ 53"
    and "d < 0 \<longleftrightarrow> n < 0"
    and "d = 0 \<longleftrightarrow> n = 0"
proof -
  define x :: rat where "x = of_int n / 100"
  have a: "x = 0 \<or> 1 / 128 \<le> \<bar>x\<bar>"
  proof (cases "n = 0")
    case True
    then show ?thesis by (simp add: x_def)
  next
    case False
    then have "1 \<le> \<bar>of_int n :: rat\<bar>" by (rule of_int_abs_ge1)
    then show ?thesis by (simp add: x_def)
  qed
  have "\<bar>of_int n :: rat\<bar> \<le> of_int (2 ^ 52)" using assms(1) by (rule of_int_abs_le)
  then have b: "\<bar>x\<bar> \<le> 2 ^ 60" by (simp add: x_def)
  note fm = fround_moderate[OF a b]
  show "divide_pos (Finite (of_int n)) 100 = Finite d"
    using fm(1) by (simp add: divide_pos_def d_def x_def)
  show err: "\<bar>d - of_int n / 100\<bar> \<le> \<bar>of_int n / 100\<bar> / 2 ^ 53"
    using fm(2) by (simp add: d_def x_def)
  have small: "n \<noteq> 0 \<Longrightarrow> \<bar>d - x\<bar> < \<bar>x\<bar>"
  proof -
    assume "n \<noteq> 0"
    then have "\<bar>x\<bar> / 2 ^ 53 < \<bar>x\<bar>" by (simp add: x_def)
    moreover have "\<bar>d - x\<bar> \<le> \<bar>x\<bar> / 2 ^ 53" using err by (simp add: x_def)
    ultimately show "\<bar>d - x\<bar> < \<bar>x\<bar>" by linarith
  qed
  show "d < 0 \<longleftrightarrow> n < 0"
  proof (cases "n = 0")
    case True
    then show ?thesis by (simp add: d_def rd_def)
  next
    case False
    then have "d < 0 \<longleftrightarrow> x < 0" using small by linarith
    also have "\<dots> \<longleftrightarrow> n < 0" by (simp add: x_def)
    finally show ?thesis .
  qed
  show "d = 0 \<longleftrightarrow> n = 0"
  proof (cases "n = 0")
    case True
    then show ?thesis by (simp add: d_def rd_def)
  next
    case False
    then have "d \<noteq> 0" using small by auto
    then show ?thesis using False by simp
  qed
qed

text \<open>The rounding error of any number, and of one below a power of two.\<close>

lemma rd_zero [simp]: "rd 0 = 0"
  by (simp add: rd_def)

lemma rd_error_general:
  assumes "x \<noteq> 0"
  shows "\<bar>rd x - x\<bar> \<le> 2 powi (max (ilog2 x) (- 1022) - 53)"
proof -
  define E where "E = max (ilog2 x) (- 1022)"
  define q :: rat where "q = 2 powi (E - 52)"
  have q0: "0 < q" by (simp add: q_def)
  have r: "rd x = of_int (round_half_even (x / q)) * q"
    using assms by (simp add: rd_def q_def E_def Let_def)
  have "\<bar>rd x - x\<bar> = \<bar>of_int (round_half_even (x / q)) - x / q\<bar> * q"
  proof -
    have "rd x - x = (of_int (round_half_even (x / q)) - x / q) * q"
      using q0 by (simp add: r algebra_simps)
    then show ?thesis using q0 by (simp add: abs_mult)
  qed
  also have "\<dots> \<le> (1 / 2) * q"
    using round_half_even_err[of "x / q"] q0 by (simp add: mult_right_mono)
  also have "\<dots> = 2 powi (E - 53)"
  proof -
    have "(2::rat) powi (E - 52 - 1) = 2 powi (E - 52) / 2 powi 1"
      by (rule power_int_diff) simp
    moreover have "E - 52 - 1 = E - 53" by simp
    ultimately show ?thesis by (simp add: q_def)
  qed
  finally show ?thesis unfolding E_def .
qed

lemma rd_error_below:
  assumes "x \<noteq> 0" "\<bar>x\<bar> < 2 powi e" "- 1021 \<le> e"
  shows "\<bar>rd x - x\<bar> \<le> 2 powi (e - 54)"
proof -
  have "ilog2 x < e" by (rule ilog2_less[OF assms(1,2)])
  then have "max (ilog2 x) (- 1022) - 53 \<le> e - 54" using assms(3) by simp
  then have "(2::rat) powi (max (ilog2 x) (- 1022) - 53) \<le> 2 powi (e - 54)" by (rule powi2_mono)
  with rd_error_general[OF assms(1)] show ?thesis by linarith
qed

text \<open>The shortest decimal reads back as the number.\<close>

lemma shortest_at_cases:
  assumes "shortest_at k a = Some s"
  shows "(s = of_int \<lfloor>a / 10 powi (ilog10 a - k + 1)\<rfloor> * 10 powi (ilog10 a - k + 1)
          \<or> s = of_int \<lfloor>a / 10 powi (ilog10 a - k + 1)\<rfloor> * 10 powi (ilog10 a - k + 1)
                + 10 powi (ilog10 a - k + 1))
         \<and> rd s = a"
  using assms by (auto simp: shortest_at_def Let_def split: if_splits)

lemma shortest_at_nonneg:
  assumes "shortest_at k a = Some s" "0 \<le> a"
  shows "0 \<le> s"
proof -
  define u :: rat where "u = 10 powi (ilog10 a - k + 1)"
  have u0: "0 < u" by (simp add: u_def)
  have "0 \<le> a / u" using assms(2) u0 by simp
  then have "0 \<le> \<lfloor>a / u\<rfloor>" by simp
  then have "(0::rat) \<le> of_int \<lfloor>a / u\<rfloor> * u" using u0 by simp
  moreover have "s = of_int \<lfloor>a / u\<rfloor> * u \<or> s = of_int \<lfloor>a / u\<rfloor> * u + u"
    using shortest_at_cases[OF assms(1)] by (simp add: u_def)
  ultimately show ?thesis using u0 by auto
qed

lemma shortest_from_reads_back: "shortest_from k a = a \<or> rd (shortest_from k a) = a"
proof (induction k a rule: shortest_from.induct)
  case (1 k a)
  show ?case
  proof (cases "shortest_at k a")
    case None
    then show ?thesis using 1 by (subst (1 2) shortest_from.simps) simp
  next
    case (Some s)
    then show ?thesis using shortest_at_cases[OF Some] by (subst (1 2) shortest_from.simps) simp
  qed
qed

lemma shortest_from_nonneg: "0 \<le> a \<Longrightarrow> 0 \<le> shortest_from k a"
proof (induction k a rule: shortest_from.induct)
  case (1 k a)
  show ?case
  proof (cases "shortest_at k a")
    case None
    then show ?thesis using 1 by (subst shortest_from.simps) simp
  next
    case (Some s)
    then show ?thesis using shortest_at_nonneg[OF Some 1(2)] by (subst shortest_from.simps) simp
  qed
qed

lemma shortest_decimal_nonneg: "0 \<le> a \<Longrightarrow> 0 \<le> shortest_decimal a"
  by (simp add: shortest_decimal_def shortest_from_nonneg)

lemma shortest_decimal_reads_back: "shortest_decimal a = a \<or> rd (shortest_decimal a) = a"
  using shortest_from_reads_back[of 1 a] by (simp add: shortest_decimal_def)

text \<open>Below \<open>2\<^sup>e\<close> the shortest decimal is within half a unit in the last place.\<close>

lemma shortest_decimal_near:
  assumes "0 \<le> a" "a < 2 powi e * (1 - 1 / 2 ^ 53)" "- 1021 \<le> e"
  shows "\<bar>shortest_decimal a - a\<bar> \<le> 2 powi (e - 54)"
proof -
  define s where "s = shortest_decimal a"
  have s0: "0 \<le> s" unfolding s_def by (rule shortest_decimal_nonneg[OF assms(1)])
  have p0: "(0::rat) \<le> 2 powi (e - 54)" by simp
  consider "s = a" | "s \<noteq> a" "rd s = a"
    using shortest_decimal_reads_back[of a] by (auto simp: s_def)
  then have "\<bar>s - a\<bar> \<le> 2 powi (e - 54)"
  proof cases
    case 1
    then show ?thesis using p0 by simp
  next
    case 2
    have sn: "s \<noteq> 0" using 2 by auto
    have lt: "\<bar>s\<bar> < 2 powi e"
    proof (rule ccontr)
      assume "\<not> \<bar>s\<bar> < 2 powi e"
      then have ge: "2 powi e \<le> s" using s0 by simp
      have "(2::rat) powi (- 1022) \<le> 2 powi e" using assms(3) by (intro powi2_mono) simp
      then have "2 powi (- 1022) \<le> \<bar>s\<bar>" using ge by simp
      then have "\<bar>rd s - s\<bar> \<le> \<bar>s\<bar> / 2 ^ 53" by (rule rd_relative_error)
      then have "\<bar>rd s - s\<bar> \<le> s / 2 ^ 53" using s0 by simp
      then have "s - s / 2 ^ 53 \<le> rd s" by linarith
      moreover have "2 powi e * (1 - 1 / 2 ^ 53) \<le> s * (1 - 1 / 2 ^ 53)"
        using ge by (intro mult_right_mono) simp_all
      ultimately have "2 powi e * (1 - 1 / 2 ^ 53) \<le> rd s" by (simp add: algebra_simps)
      then show False using assms(2) 2(2) by simp
    qed
    have "\<bar>rd s - s\<bar> \<le> 2 powi (e - 54)" by (rule rd_error_below[OF sn lt assms(3)])
    then show ?thesis using 2(2) by (simp add: abs_minus_commute)
  qed
  then show ?thesis by (simp add: s_def)
qed

text \<open>The decimal digits of an integer.\<close>

lemma ndigits_bounds:
  "0 < m \<Longrightarrow> 1 \<le> ndigits m \<and> 10 ^ nat (ndigits m - 1) \<le> m \<and> m < 10 ^ nat (ndigits m)"
proof (induction m rule: ndigits.induct)
  case (1 m)
  show ?case
  proof (cases "m < 10")
    case True
    then show ?thesis using 1(2) by (subst (1 2 3) ndigits.simps) simp
  next
    case False
    then have pos: "0 < m div 10" by simp
    define d where "d = ndigits (m div 10)"
    have ih: "1 \<le> d" "10 ^ nat (d - 1) \<le> m div 10" "m div 10 < 10 ^ nat d"
      using 1(1)[OF False pos] by (simp_all add: d_def)
    have nd: "ndigits m = 1 + d" using False by (subst ndigits.simps) (simp add: d_def)
    have e1: "nat (1 + d - 1) = Suc (nat (d - 1))" using ih(1) by simp
    have e2: "nat (1 + d) = Suc (nat d)" using ih(1) by simp
    have "10 * 10 ^ nat (d - 1) \<le> 10 * (m div 10)" using ih(2) by simp
    also have "\<dots> \<le> m" by simp
    finally have lo: "10 ^ nat (1 + d - 1) \<le> m" unfolding e1 by simp
    have "m div 10 + 1 \<le> 10 ^ nat d" using ih(3) by simp
    then have "10 * (m div 10 + 1) \<le> 10 * 10 ^ nat d" by simp
    moreover have "m < 10 * (m div 10 + 1)" by simp
    ultimately have hi: "m < 10 ^ nat (1 + d)" unfolding e2 by simp
    show ?thesis unfolding nd using ih(1) lo hi by simp
  qed
qed

lemma ndigits_le_17:
  assumes "0 < m" "m < 10 ^ 17"
  shows "ndigits m \<le> 17"
proof -
  have "(10::int) ^ nat (ndigits m - 1) < 10 ^ 17"
    using ndigits_bounds[OF assms(1)] assms(2) by linarith
  then have "nat (ndigits m - 1) < 17"
    using power_less_imp_less_exp[of "10::int" "nat (ndigits m - 1)" 17] by simp
  then show ?thesis by simp
qed

text \<open>The shortest decimal of an integer is the integer.\<close>

lemma ilog10_int:
  fixes K :: int
  assumes "0 < K"
  shows "ilog10 (of_int K) = ndigits K - 1"
proof -
  have "(1::rat) \<le> of_int K" using assms by simp
  then show ?thesis by (simp add: ilog10_def)
qed

lemma shortest_at_int:
  fixes K :: int
  assumes "0 < K" "K \<le> 2 ^ 51" "1 \<le> k" "k \<le> ndigits K"
    and "shortest_at k (of_int K) = Some s"
  shows "s = of_int K"
proof -
  define D where "D = ndigits K"
  define U :: int where "U = 10 ^ nat (D - k)"
  have U1: "1 \<le> U" by (simp add: U_def)
  have "nat (D - k) \<le> nat (D - 1)" using assms(3) by simp
  then have "U \<le> 10 ^ nat (D - 1)" unfolding U_def by (intro power_increasing) simp_all
  then have UK: "U \<le> K" using ndigits_bounds[OF assms(1)] by (simp add: D_def)
  have e: "ilog10 (of_int K) - k + 1 = D - k" by (simp add: ilog10_int[OF assms(1)] D_def)
  have u: "(10::rat) powi (D - k) = of_int U"
    using assms(4) by (simp add: power_int_def U_def D_def)
  define n where "n = K div U"
  have fl: "\<lfloor>(of_int K :: rat) / of_int U\<rfloor> = n" by (simp add: n_def floor_divide_of_int_eq)
  have n0: "0 \<le> n" using assms(1) U1 by (simp add: n_def pos_imp_zdiv_nonneg_iff)
  have "K div U * U + K mod U = K" by simp
  moreover have "0 \<le> K mod U" using U1 by simp
  ultimately have nU: "n * U \<le> K" unfolding n_def by linarith
  have lo: "0 \<le> n * U" "n * U \<le> 2 ^ 52" using n0 U1 nU assms(2) by simp_all
  have hi: "0 \<le> n * U + U" "n * U + U \<le> 2 ^ 52" using n0 U1 nU UK assms(2) by simp_all
  have rlo: "rd (of_int (n * U)) = of_int (n * U)" using lo by (intro rd_of_int) simp
  have rhi: "rd (of_int (n * U + U)) = of_int (n * U + U)" using hi by (intro rd_of_int) simp
  from shortest_at_cases[OF assms(5)]
  have "(s = of_int (n * U) \<or> s = of_int (n * U + U)) \<and> rd s = of_int K"
    unfolding e u fl by simp
  then show ?thesis using rlo rhi by auto
qed

lemma shortest_at_int_last:
  fixes K :: int
  assumes "0 < K" "K \<le> 2 ^ 51"
  shows "shortest_at (ndigits K) (of_int K) \<noteq> None"
proof -
  have "rd (of_int K) = of_int K" using assms by (intro rd_of_int) simp
  then show ?thesis
    by (simp add: shortest_at_def Let_def ilog10_int[OF assms(1)])
qed

lemma shortest_from_int:
  fixes K :: int
  assumes "0 < K" "K \<le> 2 ^ 51" "1 \<le> k" "k \<le> ndigits K"
  shows "shortest_from k (of_int K) = of_int K"
  using assms(3,4)
proof (induction "nat (ndigits K - k)" arbitrary: k)
  case 0
  then have kD: "k = ndigits K" by simp
  from shortest_at_int_last[OF assms(1,2)] obtain s
    where s: "shortest_at k (of_int K) = Some s" unfolding kD by auto
  have "s = of_int K" by (rule shortest_at_int[OF assms(1,2) 0(2,3) s])
  then show ?case using s by (subst shortest_from.simps) simp
next
  case (Suc j)
  show ?case
  proof (cases "shortest_at k (of_int K)")
    case (Some s)
    have "s = of_int K" by (rule shortest_at_int[OF assms(1,2) Suc(3,4) Some])
    then show ?thesis using Some by (subst shortest_from.simps) simp
  next
    case None
    have "K < 10 ^ 17" using assms(2) by simp
    then have "ndigits K \<le> 17" by (rule ndigits_le_17[OF assms(1)])
    moreover have lt: "k < ndigits K" using Suc(2) by simp
    ultimately have n17: "\<not> 17 \<le> k" by simp
    have "j = nat (ndigits K - (k + 1))" using Suc(2) by simp
    then have "shortest_from (k + 1) (of_int K) = of_int K"
      using Suc(1)[of "k + 1"] Suc(3) lt by simp
    then show ?thesis using None n17 by (subst shortest_from.simps) simp
  qed
qed

lemma shortest_decimal_int:
  fixes K :: int
  assumes "0 \<le> K" "K \<le> 2 ^ 51"
  shows "shortest_decimal (of_int K) = of_int K"
proof (cases "K = 0")
  case True
  then show ?thesis by (simp add: shortest_decimal_def)
next
  case False
  then have K: "0 < K" using assms(1) by simp
  have "1 \<le> ndigits K" using ndigits_bounds[OF K] by simp
  then have "shortest_from 1 (of_int K) = of_int K"
    by (intro shortest_from_int[OF K assms(2)]) simp_all
  then show ?thesis using False by (simp add: shortest_decimal_def)
qed

section \<open>Digits and separators\<close>

lemma digit_range:
  fixes d :: int
  assumes "0 \<le> d" "d < 10"
  shows "d = 0 \<or> d = 1 \<or> d = 2 \<or> d = 3 \<or> d = 4 \<or> d = 5 \<or> d = 6 \<or> d = 7 \<or> d = 8 \<or> d = 9"
  using assms by arith

lemma isDigit_digit_char: "0 \<le> d \<Longrightarrow> d < 10 \<Longrightarrow> isDigit (digit_char d)"
  using digit_range[of d] by (auto simp: isDigit_def digit_char_def)

lemma digit_value_digit_char: "0 \<le> d \<Longrightarrow> d < 10 \<Longrightarrow> digit_value (digit_char d) = d"
  using digit_range[of d] by (auto simp: digit_char_def digit_value_def)

lemma digit_char_eq_zero: "0 \<le> d \<Longrightarrow> d < 10 \<Longrightarrow> digit_char d = 0x30 \<longleftrightarrow> d = 0"
  using digit_range[of d] by (auto simp: digit_char_def)

lemma isDigit_mod10 [simp]: "isDigit (digit_char (n mod 10))"
  by (rule isDigit_digit_char) simp_all

lemma isDigit_decimal: "0 \<le> n \<Longrightarrow> c \<in> set (decimal n) \<Longrightarrow> isDigit c"
proof (induction n arbitrary: c rule: decimal.induct)
  case (1 n)
  show ?case
  proof (cases "n < 10")
    case True
    then show ?thesis using 1(2,3) by (simp add: decimal.simps[of n] isDigit_digit_char)
  next
    case False
    then have "0 \<le> n div 10" by simp
    then show ?thesis using 1 False by (auto simp: decimal.simps[of n])
  qed
qed

lemma isDigit_pad3: "c \<in> set (pad3 n) \<Longrightarrow> isDigit c"
  by (auto simp: pad3_def)

lemma isDigit_two_digits: "0 \<le> f \<Longrightarrow> f < 100 \<Longrightarrow> c \<in> set (two_digits f) \<Longrightarrow> isDigit c"
proof -
  assume "0 \<le> f" "f < 100" "c \<in> set (two_digits f)"
  moreover from \<open>0 \<le> f\<close> \<open>f < 100\<close> have "0 \<le> f div 10" "f div 10 < 10" by simp_all
  ultimately show ?thesis by (auto simp: two_digits_def isDigit_digit_char)
qed

lemma grouped_chars: "0 \<le> n \<Longrightarrow> c \<in> set (grouped n) \<Longrightarrow> isDigit c \<or> c = 0x2E"
proof (induction n arbitrary: c rule: grouped.induct)
  case (1 n)
  show ?case
  proof (cases "n < 1000")
    case True
    then show ?thesis using 1(2,3) by (simp add: grouped.simps[of n] isDigit_decimal)
  next
    case False
    then have "0 \<le> n div 1000" by simp
    then show ?thesis using 1 False by (auto simp: grouped.simps[of n] isDigit_pad3)
  qed
qed

lemma grouped_by_chars: "0 \<le> n \<Longrightarrow> c \<in> set (grouped_by ts n) \<Longrightarrow> isDigit c \<or> c \<in> set ts"
proof (induction ts n arbitrary: c rule: grouped_by.induct)
  case (1 sep n)
  show ?case
  proof (cases "n < 1000")
    case True
    then show ?thesis using 1(2,3) by (simp add: grouped_by.simps[of sep n] isDigit_decimal)
  next
    case False
    then have "0 \<le> n div 1000" by simp
    then show ?thesis using 1 False by (auto simp: grouped_by.simps[of sep n] isDigit_pad3)
  qed
qed

subsection \<open>Replacement without dollar patterns\<close>

lemma getSubstitution_plain: "plain t \<Longrightarrow> getSubstitution m p a t = t"
  by (induction m p a t rule: getSubstitution.induct) (auto simp: plain_def)

lemma replace_char_from_plain:
  "plain t \<Longrightarrow> replace_char_from c t pre s = concat (map (\<lambda>x. if x = c then t else [x]) s)"
  by (induction s arbitrary: pre) (simp_all add: getSubstitution_plain)

lemma replace_char_global_plain:
  "plain t \<Longrightarrow> replace_char_global c t s = concat (map (\<lambda>x. if x = c then t else [x]) s)"
  by (simp add: replace_char_global_def replace_char_from_plain)

lemma subst_absent:
  "c \<notin> set s \<Longrightarrow> concat (map (\<lambda>x. if x = c then t else [x]) s) = s"
  by (induction s) auto

lemma subst_digits:
  "(\<And>x. x \<in> set s \<Longrightarrow> isDigit x) \<Longrightarrow> \<not> isDigit c \<Longrightarrow>
   concat (map (\<lambda>x. if x = c then t else [x]) s) = s"
  by (rule subst_absent) auto

lemma subst_grouped:
  "0 \<le> n \<Longrightarrow> concat (map (\<lambda>x. if x = 0x2E then ts else [x]) (grouped n)) = grouped_by ts n"
proof (induction n rule: grouped.induct)
  case (1 n)
  have nd: "\<not> isDigit 0x2E" by (simp add: isDigit_def)
  show ?case
  proof (cases "n < 1000")
    case True
    then show ?thesis using 1(2)
      by (simp add: grouped.simps[of n] grouped_by.simps[of ts n]
          subst_digits[OF isDigit_decimal nd])
  next
    case False
    then have "0 \<le> n div 1000" by simp
    then show ?thesis using 1 False
      by (simp add: grouped.simps[of n] grouped_by.simps[of ts n] subst_digits[OF isDigit_pad3 nd])
  qed
qed

subsection \<open>Splitting at the comma\<close>

lemma split_on_absent: "c \<notin> set s \<Longrightarrow> split_on c s = [s]"
  by (induction s) auto

lemma split_on_first: "c \<notin> set a \<Longrightarrow> split_on c (a @ c # b) = a # split_on c b"
  by (induction a) auto

lemma split_on_hd: "c \<notin> set a \<Longrightarrow> hd (split_on c (a @ (if b = [] then [] else c # b))) = a"
  by (simp add: split_on_absent split_on_first)

section \<open>The formatted amount\<close>

lemma fraction3_cents:
  assumes "0 \<le> f" "f < 100"
  shows "fraction3 (10 * f) =
    (if f = 0 then [] else if f mod 10 = 0 then [0x2C, digit_char (f div 10)]
     else 0x2C # two_digits f)"
proof -
  have p: "pad3 (10 * f) = [digit_char (f div 10), digit_char (f mod 10), 0x30]"
  proof -
    have "10 * f div 100 mod 10 = f div 10" using assms by simp
    moreover have "10 * f div 10 mod 10 = f mod 10" by simp
    moreover have "10 * f mod 10 = 0" by simp
    ultimately show ?thesis by (simp add: pad3_def digit_char_def)
  qed
  have a: "0 \<le> f mod 10" "f mod 10 < 10" by simp_all
  have b: "0 \<le> f div 10" "f div 10 < 10" using assms by simp_all
  have c: "f \<noteq> 0 \<Longrightarrow> f mod 10 = 0 \<Longrightarrow> f div 10 \<noteq> 0" by auto
  show ?thesis
    using digit_char_eq_zero[OF a] digit_char_eq_zero[OF b] c
    by (auto simp: fraction3_def p strip_zeros_def two_digits_def)
qed

lemma no_comma_prefix:
  "0 \<le> k \<Longrightarrow> 0x2C \<notin> set (sign_str n @ grouped k)"
  using grouped_chars[of k "0x2C"] by (auto simp: sign_str_def isDigit_def)

lemma suitable_amount:
  assumes "0 \<le> f" "f < 100" "0 \<le> k"
  shows "amountNiceSuitableString policy (sign_str n @ grouped k @ fraction3 (10 * f)) =
         sign_str n @ grouped k @
         (if policy = hideAlways \<or> (policy = hideIfZero \<and> f = 0) then []
          else 0x2C # two_digits f)"
proof -
  define a where "a = sign_str n @ grouped k"
  have na: "0x2C \<notin> set a" unfolding a_def using assms(3) by (rule no_comma_prefix)
  have fd: "0 \<le> f div 10" "f div 10 < 10" using assms by simp_all
  have nd: "0x2C \<notin> set (two_digits f)"
    using isDigit_two_digits[OF assms(1,2), of "0x2C"] by (auto simp: isDigit_def)
  have nd1: "digit_char (f div 10) \<noteq> 0x2C"
    using isDigit_digit_char[OF fd] by (auto simp: isDigit_def)
  have z: "str '',00'' = 0x2C # two_digits 0" "str ''0'' = [digit_char 0]" "str '','' = [0x2C]"
    by (simp_all add: str_def two_digits_def digit_char_def)
  consider "f = 0" | "f \<noteq> 0" "f mod 10 = 0" | "f mod 10 \<noteq> 0" by auto
  then have "amountNiceSuitableString policy (a @ fraction3 (10 * f)) =
         a @ (if policy = hideAlways \<or> (policy = hideIfZero \<and> f = 0) then []
          else 0x2C # two_digits f)"
  proof cases
    case 1
    have fr: "fraction3 (10 * f) = []" using 1 fraction3_cents[OF assms(1,2)] by simp
    show ?thesis unfolding fr using 1
      by (cases policy)
        (simp_all add: amountNiceSuitableString_def Let_def split_on_absent[OF na] z)
  next
    case 2
    have fr: "fraction3 (10 * f) = [0x2C, digit_char (f div 10)]"
      using 2 fraction3_cents[OF assms(1,2)] by simp
    have s: "split_on 0x2C (a @ [0x2C, digit_char (f div 10)]) = [a, [digit_char (f div 10)]]"
      using split_on_first[OF na, of "[digit_char (f div 10)]"] nd1 by simp
    have t: "two_digits f = [digit_char (f div 10), digit_char 0]"
      using 2 by (simp add: two_digits_def)
    show ?thesis unfolding fr using 2
      by (cases policy)
        (simp_all add: amountNiceSuitableString_def Let_def s z t)
  next
    case 3
    then have f0: "f \<noteq> 0" by auto
    have fr: "fraction3 (10 * f) = 0x2C # two_digits f"
      using 3 f0 fraction3_cents[OF assms(1,2)] by simp
    have s: "split_on 0x2C (a @ 0x2C # two_digits f) = [a, two_digits f]"
      using split_on_first[OF na, of "two_digits f"] split_on_absent[OF nd] by simp
    have l: "length (two_digits f) = 2" "two_digits f \<noteq> []" by (simp_all add: two_digits_def)
    show ?thesis unfolding fr using 3 f0
      by (cases policy)
        (simp_all add: amountNiceSuitableString_def Let_def s z l)
  qed
  then show ?thesis by (simp add: a_def)
qed

lemma substitute_separators:
  assumes "plain dp" "plain ts" "0x2C \<notin> set ts" "0 \<le> f" "f < 100" "0 \<le> k"
  shows "replace_char_global 0x2C dp (replace_char_global 0x2E ts
           (sign_str n @ grouped k @ (if b then [] else 0x2C # two_digits f))) =
         sign_str n @ grouped_by ts k @ (if b then [] else dp @ two_digits f)"
proof -
  let ?dot = "\<lambda>x. if x = (0x2E::jschar) then ts else [x]"
  let ?com = "\<lambda>x. if x = (0x2C::jschar) then dp else [x]"
  note dig = isDigit_two_digits[OF assms(4,5)]
  have nd: "\<not> isDigit 0x2E" "\<not> isDigit 0x2C" by (simp_all add: isDigit_def)
  have s1: "concat (map ?dot (sign_str n)) = sign_str n" by (simp add: sign_str_def)
  have s2: "concat (map ?com (sign_str n)) = sign_str n" by (simp add: sign_str_def)
  have t1: "concat (map ?dot (two_digits f)) = two_digits f" by (rule subst_digits[OF dig nd(1)])
  have t2: "concat (map ?com (two_digits f)) = two_digits f" by (rule subst_digits[OF dig nd(2)])
  have g2: "concat (map ?com (grouped_by ts k)) = grouped_by ts k"
  proof (rule subst_absent)
    show "0x2C \<notin> set (grouped_by ts k)"
      using grouped_by_chars[OF assms(6), of "0x2C" ts] assms(3) nd(2) by auto
  qed
  have first: "replace_char_global 0x2E ts
           (sign_str n @ grouped k @ (if b then [] else 0x2C # two_digits f)) =
         sign_str n @ grouped_by ts k @ (if b then [] else 0x2C # two_digits f)"
    by (simp add: replace_char_global_plain[OF assms(2)] s1 t1 subst_grouped[OF assms(6)])
  show ?thesis
    unfolding first by (simp add: replace_char_global_plain[OF assms(1)] s2 t2 g2)
qed

lemma int_mod_100_zero: "(n::int) mod 100 = 0 \<longleftrightarrow> \<bar>n\<bar> mod 100 = 0"
proof -
  have "n mod 100 = 0 \<longleftrightarrow> 100 dvd n" by (simp add: dvd_eq_mod_eq_0)
  also have "\<dots> \<longleftrightarrow> 100 dvd \<bar>n\<bar>" by simp
  also have "\<dots> \<longleftrightarrow> \<bar>n\<bar> mod 100 = 0" by (simp add: dvd_eq_mod_eq_0)
  finally show ?thesis .
qed

text \<open>Up to \<open>2\<^sup>4\<^sup>8\<close> cents the float of an amount prints as the amount's own decimals.\<close>

lemma localized_thousandths:
  fixes n :: int
  assumes "\<bar>n\<bar> \<le> 2 ^ 48"
  shows "\<lfloor>shortest_decimal \<bar>rd (of_int n / 100)\<bar> * 1000 + 1 / 2\<rfloor> = 10 * \<bar>n\<bar>"
proof -
  define x :: rat where "x = of_int n / 100"
  define d where "d = rd x"
  define a where "a = \<bar>d\<bar>"
  define s where "s = shortest_decimal a"
  have p12: "(2::rat) powi (42 - 54) = 1 / 4096" by (simp add: power_int_minus_divide)
  have p42: "(2::rat) powi 42 = 4398046511104" by simp
  have "\<bar>of_int n :: rat\<bar> \<le> of_int (2 ^ 48)" using assms by (rule of_int_abs_le)
  then have bound: "\<bar>x\<bar> \<le> 2 ^ 48 / 100" by (simp add: x_def)
  have e1: "\<bar>d - x\<bar> \<le> 1 / 4096"
  proof (cases "x = 0")
    case True
    then show ?thesis by (simp add: d_def)
  next
    case False
    have "\<bar>x\<bar> < 2 powi 42" using bound unfolding p42 by simp
    then have "\<bar>rd x - x\<bar> \<le> 2 powi (42 - 54)" by (intro rd_error_below[OF False]) simp_all
    then show ?thesis unfolding p12 d_def .
  qed
  have a0: "0 \<le> a" by (simp add: a_def)
  have e1': "\<bar>a - \<bar>x\<bar>\<bar> \<le> 1 / 4096" using e1 unfolding a_def by linarith
  then have "a \<le> 2 ^ 48 / 100 + 1 / 4096" using bound by linarith
  then have "a < 2 powi 42 * (1 - 1 / 2 ^ 53)" unfolding p42 by simp
  then have "\<bar>s - a\<bar> \<le> 2 powi (42 - 54)"
    unfolding s_def using a0 by (intro shortest_decimal_near) simp_all
  then have e2: "\<bar>s - a\<bar> \<le> 1 / 4096" unfolding p12 .
  have ax: "\<bar>x\<bar> * 1000 = of_int (10 * \<bar>n\<bar>)" by (simp add: x_def)
  have "\<bar>s - \<bar>x\<bar>\<bar> \<le> 1 / 2048" using e1' e2 by linarith
  then have "of_int (10 * \<bar>n\<bar>) \<le> s * 1000 + 1 / 2"
    "s * 1000 + 1 / 2 < of_int (10 * \<bar>n\<bar>) + 1"
    unfolding ax[symmetric] by linarith+
  then have "\<lfloor>s * 1000 + 1 / 2\<rfloor> = 10 * \<bar>n\<bar>" by (rule floor_unique)
  then show ?thesis by (simp add: s_def a_def d_def x_def)
qed

lemma toLocaleString_amount:
  fixes n :: int
  assumes "\<bar>n\<bar> \<le> 2 ^ 48"
  shows "toLocaleString_deDE (divide_pos (Finite (of_int n)) 100) =
         sign_str n @ grouped (\<bar>n\<bar> div 100) @ fraction3 (10 * (\<bar>n\<bar> mod 100))"
proof -
  have n52: "\<bar>n\<bar> \<le> 2 ^ 52" using assms by simp
  note sf = scaled_float[OF n52]
  have 1: "10 * \<bar>n\<bar> div 1000 = \<bar>n\<bar> div 100" by simp
  have "10 * (\<bar>n\<bar> mod 100) = 10 * \<bar>n\<bar> mod (10 * 100)" by (rule mult_mod_right)
  then have 2: "10 * \<bar>n\<bar> mod 1000 = 10 * (\<bar>n\<bar> mod 100)" by simp
  have "toLocaleString_deDE (Finite (rd (of_int n / 100))) =
     (if rd (of_int n / 100) < 0 then [0x2D] else []) @
     grouped (\<lfloor>shortest_decimal \<bar>rd (of_int n / 100)\<bar> * 1000 + 1 / 2\<rfloor> div 1000) @
     fraction3 (\<lfloor>shortest_decimal \<bar>rd (of_int n / 100)\<bar> * 1000 + 1 / 2\<rfloor> mod 1000)"
    by (simp only: toLocaleString_deDE_def Let_def number.case)
  then show ?thesis
    unfolding sf(1) localized_thousandths[OF assms] 1 2 sign_str_def using sf(3) by simp
qed

lemma format_rendering:
  fixes n :: int
  assumes "\<bar>n\<bar> \<le> 2 ^ 48"
    and "a = Num (Finite (of_int n)) \<or> a = BigInt n"
    and "plain (or_default dpo (defaultDecimalPoint t))"
    and "plain (or_default tso (defaultThousandsSeparator t))"
    and "0x2C \<notin> set (or_default tso (defaultThousandsSeparator t))"
  shows "integerWithDecimalsToAmountString t a dpo tso po =
         rendering (or_default dpo (defaultDecimalPoint t))
           (or_default tso (defaultThousandsSeparator t))
           (or_default po (defaultDecimalPolicy t)) n"
proof -
  have "\<bar>n\<bar> \<le> 2 ^ 52" using assms(1) by simp
  then have fl: "integerWithDecimalsToFloatNumber a = divide_pos (Finite (of_int n)) 100"
    using assms(2) by (auto simp: integerWithDecimalsToFloatNumber_def Number_of_bigint_safe)
  have f: "0 \<le> \<bar>n\<bar> mod 100" "\<bar>n\<bar> mod 100 < 100" by simp_all
  have k: "0 \<le> \<bar>n\<bar> div 100" by simp
  show ?thesis
    unfolding integerWithDecimalsToAmountString_def Let_def fl toLocaleString_amount[OF assms(1)]
      suitable_amount[OF f k] substitute_separators[OF assms(3,4,5) f k] rendering_def
    by (simp add: int_mod_100_zero[symmetric])
qed

text \<open>Up to \<open>2\<^sup>5\<^sup>2\<close> cents the float of an amount still prints the amount's whole units.\<close>

lemma div_1000_unique:
  fixes m X :: int
  assumes "1000 * X \<le> m" "m < 1000 * X + 1000"
  shows "m div 1000 = X"
  using assms by simp

lemma localized_units:
  fixes n :: int
  assumes "\<bar>n\<bar> \<le> 2 ^ 52"
  shows "\<lfloor>shortest_decimal \<bar>rd (of_int n / 100)\<bar> * 1000 + 1 / 2\<rfloor> div 1000 = \<bar>n\<bar> div 100"
proof -
  define x :: rat where "x = of_int n / 100"
  define d where "d = rd x"
  define a where "a = \<bar>d\<bar>"
  define s where "s = shortest_decimal a"
  define X where "X = \<bar>n\<bar> div 100"
  define f where "f = \<bar>n\<bar> mod 100"
  have nX: "\<bar>n\<bar> = 100 * X + f" by (simp add: X_def f_def)
  have f: "0 \<le> f" "f < 100" by (simp_all add: f_def)
  have X0: "0 \<le> X" by (simp add: X_def)
  have a0: "0 \<le> a" by (simp add: a_def)
  have ax: "\<bar>x\<bar> = of_int X + of_int f / 100"
  proof -
    have "\<bar>x\<bar> = of_int \<bar>n\<bar> / 100" by (simp add: x_def)
    also have "\<dots> = of_int (100 * X + f) / 100" by (simp only: nX)
    also have "\<dots> = of_int X + of_int f / 100" by simp
    finally show ?thesis .
  qed
  have range: "of_int (1000 * X) \<le> s * 1000 + 1 / 2
             \<and> s * 1000 + 1 / 2 < of_int (1000 * X + 1000)"
  proof (cases "f = 0")
    case True
    have "\<bar>n\<bar> = 100 * X" using nX True by simp
    then have "n = 100 * X \<or> n = 100 * (- X)" by linarith
    then obtain Y where Y: "n = 100 * Y" "\<bar>Y\<bar> = X" using X0 by auto
    have "\<bar>Y\<bar> \<le> 2 ^ 52" using assms Y(1) by simp
    then have "rd (of_int Y) = of_int Y" by (rule rd_of_int)
    moreover have "x = of_int Y" by (simp add: x_def Y(1))
    ultimately have "d = of_int Y" by (simp add: d_def)
    then have "a = of_int X" using Y(2) by (simp add: a_def)
    moreover have "X \<le> 2 ^ 51" using assms nX f(1) X0 by simp
    ultimately have "s = of_int X" unfolding s_def using X0 by (simp add: shortest_decimal_int)
    then show ?thesis by simp
  next
    case False
    then have f1: "1 \<le> f" "f \<le> 99" using f by simp_all
    have "0 < 100 * X + f" using X0 f1(1) by linarith
    then have "n \<noteq> 0" using nX by auto
    then have x0: "x \<noteq> 0" by (simp add: x_def)
    have p8: "(2::rat) powi (46 - 54) = 1 / 256" by (simp add: power_int_minus_divide)
    have p46: "(2::rat) powi 46 = 70368744177664" by simp
    have "\<bar>of_int n :: rat\<bar> \<le> of_int (2 ^ 52)" using assms by (rule of_int_abs_le)
    then have bound: "\<bar>x\<bar> \<le> 2 ^ 52 / 100" by (simp add: x_def)
    then have "\<bar>x\<bar> < 2 powi 46" unfolding p46 by simp
    then have "\<bar>rd x - x\<bar> \<le> 2 powi (46 - 54)" by (intro rd_error_below[OF x0]) simp_all
    then have "\<bar>d - x\<bar> \<le> 1 / 256" unfolding p8 d_def .
    then have dd: "\<bar>a - \<bar>x\<bar>\<bar> \<le> 1 / 256" unfolding a_def by linarith
    then have "a \<le> 2 ^ 52 / 100 + 1 / 256" using bound by linarith
    then have "a < 2 powi 46 * (1 - 1 / 2 ^ 53)" unfolding p46 by simp
    then have "\<bar>s - a\<bar> \<le> 2 powi (46 - 54)"
      unfolding s_def using a0 by (intro shortest_decimal_near) simp_all
    then have "\<bar>s - a\<bar> \<le> 1 / 256" unfolding p8 .
    then have sx: "\<bar>s - \<bar>x\<bar>\<bar> \<le> 1 / 128" using dd by linarith
    have "(of_int 1 :: rat) \<le> of_int f" using f1(1) by (simp only: of_int_le_iff)
    moreover have "(of_int f :: rat) \<le> of_int 99" using f1(2) by (simp only: of_int_le_iff)
    ultimately have xr: "of_int X + 1 / 100 \<le> \<bar>x\<bar>" "\<bar>x\<bar> \<le> of_int X + 99 / 100"
      unfolding ax by simp_all
    have "\<bar>x\<bar> - 1 / 128 \<le> s" "s \<le> \<bar>x\<bar> + 1 / 128" using sx by linarith+
    with xr have "of_int X + 1 / 100 - 1 / 128 \<le> s" "s \<le> of_int X + 99 / 100 + 1 / 128"
      by linarith+
    then have "1000 * of_int X \<le> s * 1000 + 1 / 2"
      "s * 1000 + 1 / 2 < 1000 * of_int X + 1000" by linarith+
    then show ?thesis by simp
  qed
  define m where "m = \<lfloor>s * 1000 + 1 / 2\<rfloor>"
  have "1000 * X \<le> m" unfolding m_def using range by (simp add: le_floor_iff)
  moreover have "m < 1000 * X + 1000" unfolding m_def using range by (simp add: floor_less_iff)
  ultimately have "m div 1000 = X" by (rule div_1000_unique)
  then show ?thesis by (simp add: m_def s_def a_def d_def x_def X_def)
qed

lemma fraction3_shape: "fraction3 r = [] \<or> (\<exists>b. fraction3 r = 0x2C # b)"
  by (simp add: fraction3_def)

lemma format_hideAlways:
  fixes n :: int
  assumes "\<bar>n\<bar> \<le> 2 ^ 52"
    and "a = Num (Finite (of_int n)) \<or> a = BigInt n"
    and "plain (or_default dpo (defaultDecimalPoint t))"
    and "plain (or_default tso (defaultThousandsSeparator t))"
    and "0x2C \<notin> set (or_default tso (defaultThousandsSeparator t))"
  shows "integerWithDecimalsToAmountString t a dpo tso (Some hideAlways) =
         sign_str n @ grouped_by (or_default tso (defaultThousandsSeparator t)) (\<bar>n\<bar> div 100)"
proof -
  define ts where "ts = or_default tso (defaultThousandsSeparator t)"
  define dp where "dp = or_default dpo (defaultDecimalPoint t)"
  define k where "k = \<bar>n\<bar> div 100"
  define r where "r = \<lfloor>shortest_decimal \<bar>rd (of_int n / 100)\<bar> * 1000 + 1 / 2\<rfloor> mod 1000"
  have k0: "0 \<le> k" by (simp add: k_def)
  have fl: "integerWithDecimalsToFloatNumber a = Finite (rd (of_int n / 100))"
    using assms(1,2) scaled_float(1)[OF assms(1)]
    by (auto simp: integerWithDecimalsToFloatNumber_def Number_of_bigint_safe)
  have loc: "toLocaleString_deDE (Finite (rd (of_int n / 100))) =
         sign_str n @ grouped k @ fraction3 r"
  proof -
    have "toLocaleString_deDE (Finite (rd (of_int n / 100))) =
       (if rd (of_int n / 100) < 0 then [0x2D] else []) @
       grouped (\<lfloor>shortest_decimal \<bar>rd (of_int n / 100)\<bar> * 1000 + 1 / 2\<rfloor> div 1000) @
       fraction3 (\<lfloor>shortest_decimal \<bar>rd (of_int n / 100)\<bar> * 1000 + 1 / 2\<rfloor> mod 1000)"
      by (simp only: toLocaleString_deDE_def Let_def number.case)
    then show ?thesis
      unfolding localized_units[OF assms(1)] r_def k_def sign_str_def
      using scaled_float(3)[OF assms(1)] by simp
  qed
  have na: "0x2C \<notin> set (sign_str n @ grouped k)" using k0 by (rule no_comma_prefix)
  have nice: "amountNiceSuitableString hideAlways (sign_str n @ grouped k @ fraction3 r) =
        sign_str n @ grouped k"
  proof -
    have "hd (split_on 0x2C ((sign_str n @ grouped k) @ fraction3 r)) = sign_str n @ grouped k"
      using fraction3_shape[of r] split_on_absent[OF na] split_on_first[OF na] by auto
    then show ?thesis by (simp add: amountNiceSuitableString_def Let_def)
  qed
  have sub: "replace_char_global 0x2C dp (replace_char_global 0x2E ts
           (sign_str n @ grouped k @ (if True then [] else 0x2C # two_digits 0))) =
         sign_str n @ grouped_by ts k @ (if True then [] else dp @ two_digits 0)"
    using assms(3,4,5) k0 unfolding ts_def dp_def by (intro substitute_separators) simp_all
  show ?thesis
    unfolding integerWithDecimalsToAmountString_def Let_def fl loc
    using nice sub by (simp add: or_default_def ts_def dp_def k_def)
qed

lemma default_separators [simp]:
  "defaultDecimalPoint (createMoneyThings (only_currencies cs)) = str '',''"
  "defaultThousandsSeparator (createMoneyThings (only_currencies cs)) = [0xA0]"
  "defaultDecimalPolicy (createMoneyThings (only_currencies cs)) = hideIfZero"
  by (simp_all add: createMoneyThings_def only_currencies_def or_default_def)

lemma default_separators_plain [simp]:
  "plain (str '','')" "plain [0xA0]" "0x2C \<notin> set [0xA0::jschar]"
  by (simp_all add: plain_def str_def)

subsection \<open>The shape of a localized number\<close>

lemma strip_zeros_pad3:
  assumes "0 < f" "f < 1000"
  shows "strip_zeros (pad3 f) \<noteq> [] \<and> length (strip_zeros (pad3 f)) \<le> 3
         \<and> (\<forall>c \<in> set (strip_zeros (pad3 f)). isDigit c)"
proof -
  have d: "0 \<le> f div 100 mod 10" "f div 100 mod 10 < 10" "0 \<le> f div 10 mod 10"
    "f div 10 mod 10 < 10" "0 \<le> f mod 10" "f mod 10 < 10" by simp_all
  have nz: "\<not> (f div 100 mod 10 = 0 \<and> f div 10 mod 10 = 0 \<and> f mod 10 = 0)"
  proof
    assume a: "f div 100 mod 10 = 0 \<and> f div 10 mod 10 = 0 \<and> f mod 10 = 0"
    have "f div 100 < 10" using assms by simp
    then have "f div 100 = 0" using a assms(1) by simp
    then have "f < 100" using assms(1) by simp
    then have "f div 10 < 10" by simp
    then have "f div 10 = 0" using a assms(1) by simp
    then have "f < 10" using assms(1) by simp
    then have "f = 0" using a assms(1) by simp
    then show False using assms(1) by simp
  qed
  have dg: "isDigit (digit_char (f div 100 mod 10))" "isDigit (digit_char (f div 10 mod 10))"
    "isDigit (digit_char (f mod 10))" by simp_all
  show ?thesis
    using nz dg digit_char_eq_zero[OF d(1,2)] digit_char_eq_zero[OF d(3,4)]
      digit_char_eq_zero[OF d(5,6)]
    by (auto simp: strip_zeros_def pad3_def)
qed

lemma localized_parts_iff:
  "localized_parts A F \<longleftrightarrow>
     0x2C \<notin> set A
     \<and> (F = [] \<or> (\<exists>ds. F = 0x2C # ds \<and> ds \<noteq> [] \<and> length ds \<le> 3 \<and> (\<forall>c \<in> set ds. isDigit c)))"
  by (cases F) (auto simp: localized_parts_def)

lemma fraction3_parts:
  assumes "0 \<le> f" "f < 1000" "0x2C \<notin> set A"
  shows "localized_parts A (fraction3 f)"
proof (cases "f = 0")
  case True
  then show ?thesis using assms(3) by (simp add: localized_parts_iff fraction3_def)
next
  case False
  then have "0 < f" using assms(1) by simp
  from strip_zeros_pad3[OF this assms(2)] show ?thesis
    using False assms(3) by (simp add: localized_parts_iff fraction3_def)
qed

lemma toLocaleString_parts: "\<exists>A F. toLocaleString_deDE x = A @ F \<and> localized_parts A F"
proof (cases x)
  case NaN
  have "localized_parts (str ''NaN'') []" by (simp add: localized_parts_iff str_def)
  then show ?thesis using NaN by (intro exI[of _ "str ''NaN''"] exI[of _ "[]"])
      (simp add: toLocaleString_deDE_def)
next
  case PosInfinity
  have "localized_parts [0x221E] []" by (simp add: localized_parts_iff)
  then show ?thesis using PosInfinity by (intro exI[of _ "[0x221E]"] exI[of _ "[]"])
      (simp add: toLocaleString_deDE_def)
next
  case NegInfinity
  have "localized_parts [0x2D, 0x221E] []" by (simp add: localized_parts_iff)
  then show ?thesis using NegInfinity by (intro exI[of _ "[0x2D, 0x221E]"] exI[of _ "[]"])
      (simp add: toLocaleString_deDE_def)
next
  case NegZero
  have "localized_parts (str ''-0'') []" by (simp add: localized_parts_iff str_def)
  then show ?thesis using NegZero by (intro exI[of _ "str ''-0''"] exI[of _ "[]"])
      (simp add: toLocaleString_deDE_def)
next
  case (Finite r)
  define m where "m = \<lfloor>shortest_decimal \<bar>r\<bar> * 1000 + 1 / 2\<rfloor>"
  define A where "A = (if r < 0 then [0x2D] else []) @ grouped (m div 1000)"
  have "0 \<le> shortest_decimal \<bar>r\<bar>" by (rule shortest_decimal_nonneg) simp
  then have "0 \<le> shortest_decimal \<bar>r\<bar> * 1000 + 1 / 2" by simp
  then have m0: "0 \<le> m" unfolding m_def by simp
  then have k0: "0 \<le> m div 1000" by simp
  have "0x2C \<notin> set A"
    using grouped_chars[OF k0, of "0x2C"] by (auto simp: A_def isDigit_def)
  then have "localized_parts A (fraction3 (m mod 1000))"
    by (intro fraction3_parts) simp_all
  moreover have "toLocaleString_deDE x = A @ fraction3 (m mod 1000)"
    using Finite by (simp add: toLocaleString_deDE_def Let_def m_def A_def)
  ultimately show ?thesis by blast
qed

lemma suitable_parts:
  assumes "localized_parts A F"
  shows "amountNiceSuitableString hideAlways (A @ F) = A"
    and "amountNiceSuitableString showAlways (A @ F) = A @ 0x2C # take 2 (tl F @ [0x30, 0x30])"
    and "amountNiceSuitableString hideIfZero (A @ F) =
         (if F = [] then A else A @ 0x2C # take 2 (tl F @ [0x30, 0x30]))"
proof -
  have na: "0x2C \<notin> set A" using assms by (simp add: localized_parts_iff)
  consider "F = []"
    | ds where "F = 0x2C # ds" "ds \<noteq> []" "length ds \<le> 3" "\<forall>c \<in> set ds. isDigit c"
    using assms by (auto simp: localized_parts_iff)
  then have "amountNiceSuitableString hideAlways (A @ F) = A
     \<and> amountNiceSuitableString showAlways (A @ F) = A @ 0x2C # take 2 (tl F @ [0x30, 0x30])
     \<and> amountNiceSuitableString hideIfZero (A @ F) =
         (if F = [] then A else A @ 0x2C # take 2 (tl F @ [0x30, 0x30]))"
  proof cases
    case 1
    show ?thesis
      unfolding 1 by (simp add: amountNiceSuitableString_def Let_def split_on_absent[OF na] str_def)
  next
    case 2
    have nd: "0x2C \<notin> set ds" using 2(4) by (auto simp: isDigit_def)
    have spg: "split_on 0x2C (A @ 0x2C # u) = [A, u]" if "0x2C \<notin> set u" for u
      using split_on_first[OF na, of u] split_on_absent[OF that] by simp
    show ?thesis
    proof (cases "length ds = 1")
      case True
      then obtain d where d: "ds = [d]" by (cases ds) auto
      have "split_on 0x2C (A @ [0x2C, d]) = [A, [d]]"
        using spg[of "[d]"] nd d by simp
      then show ?thesis
        unfolding 2(1) d by (simp add: amountNiceSuitableString_def Let_def str_def)
    next
      case False
      then obtain d1 d2 r where d: "ds = d1 # d2 # r"
        using 2(2) by (cases ds; cases "tl ds") auto
      have "split_on 0x2C (A @ 0x2C # d1 # d2 # r) = [A, d1 # d2 # r]"
        using spg[of "d1 # d2 # r"] nd d by simp
      then show ?thesis
        unfolding 2(1) d by (simp add: amountNiceSuitableString_def Let_def str_def)
    qed
  qed
  then show "amountNiceSuitableString hideAlways (A @ F) = A"
    and "amountNiceSuitableString showAlways (A @ F) = A @ 0x2C # take 2 (tl F @ [0x30, 0x30])"
    and "amountNiceSuitableString hideIfZero (A @ F) =
         (if F = [] then A else A @ 0x2C # take 2 (tl F @ [0x30, 0x30]))"
    by simp_all
qed

lemma two_fraction_digits:
  assumes "localized_parts A F"
  shows "\<exists>d1 d2. isDigit d1 \<and> isDigit d2 \<and> take 2 (tl F @ [0x30, 0x30]) = [d1, d2]"
proof -
  have z: "isDigit 0x30" by (simp add: isDigit_def)
  consider "F = []"
    | ds where "F = 0x2C # ds" "ds \<noteq> []" "\<forall>c \<in> set ds. isDigit c"
    using assms by (auto simp: localized_parts_iff)
  then show ?thesis
  proof cases
    case 1
    then show ?thesis using z by simp
  next
    case 2
    show ?thesis
    proof (cases "tl ds")
      case Nil
      then obtain d where "ds = [d]" using 2(2) by (cases ds) auto
      then show ?thesis using 2 z by simp
    next
      case (Cons d2 r)
      then obtain d1 where "ds = d1 # d2 # r" using 2(2) by (cases ds) auto
      then show ?thesis using 2 by simp
    qed
  qed
qed

lemma default_substitution:
  "replace_char_global 0x2C [0x2C] (replace_char_global 0x2E [0xA0] s) =
   map (\<lambda>x. if x = 0x2E then 0xA0 else x) s"
proof -
  have p: "plain [0x2C]" "plain [0xA0]" by (simp_all add: plain_def)
  have 1: "concat (map (\<lambda>x. if x = 0x2C then [0x2C] else [x]) u) = u" for u :: jsstring
    by (induction u) auto
  have 2: "concat (map (\<lambda>x. if x = 0x2E then [0xA0] else [x]) u) =
           map (\<lambda>x. if x = 0x2E then 0xA0 else x) u" for u :: jsstring
    by (induction u) auto
  show ?thesis
    unfolding replace_char_global_plain[OF p(2)] 2 replace_char_global_plain[OF p(1)] 1 ..
qed

lemma rendering_500: "rendering (str '','') [0xA0] hideIfZero 500 = str ''5''"
  by code_simp

lemma rendering_550: "rendering (str '','') [0xA0] hideIfZero 550 = str ''5,50''"
  by code_simp

lemma rendering_500_show: "rendering (str '','') [0xA0] showAlways 500 = str ''5,00''"
  by code_simp

lemma rendering_199_hide: "rendering (str '','') [0xA0] hideAlways 199 = str ''1''"
  by code_simp

section \<open>Claim C2: the decimal policy\<close>

text \<open>
  C2. With the factory's defaults (decimal point \<open>,\<close>, thousands separator U+00A0),
  \<open>integerWithDecimalsToAmountString\<close> formats amount 500 under \<open>hideIfZero\<close> as \<open>5\<close> and
  amount 550 as \<open>5,50\<close>, amount 500 under \<open>showAlways\<close> as \<open>5,00\<close>, and amount 199 under
  \<open>hideAlways\<close> as \<open>1\<close>, not \<open>2\<close>.

  The policy works on the text of the localized number, whatever its digits. Let that
  text be \<open>A\<close> followed by \<open>F\<close>, where \<open>A\<close> has no comma and \<open>F\<close> is empty or a comma and one to
  three digits. Then \<open>hideAlways\<close> gives \<open>A\<close>, unchanged; \<open>showAlways\<close> gives \<open>A\<close>, a comma and
  the first two digits of the fraction, filled up with zeros; \<open>hideIfZero\<close> gives \<open>A\<close> if
  \<open>F\<close> is empty and what \<open>showAlways\<close> gives otherwise.

  So for every amount whatever (any Number, any BigInt) the \<open>showAlways\<close> string is the
  \<open>hideAlways\<close> string followed by the decimal point and two digits: \<open>hideAlways\<close> drops
  the two fraction digits and leaves the integer part as it is shown with them, never
  rounded up by them. And for every integer amount \<open>n\<close> of magnitude at most \<open>2\<^sup>5\<^sup>2\<close> the
  \<open>hideAlways\<close> string is the sign and the grouped whole units \<open>\<bar>n\<bar> div 100\<close>, the amount
  truncated.
\<close>

theorem C2_decimal_policy:
  "integerWithDecimalsToAmountString (createMoneyThings (only_currencies cs))
     (Num (Finite 500)) None None (Some hideIfZero) = str ''5''
   \<and> integerWithDecimalsToAmountString (createMoneyThings (only_currencies cs))
     (Num (Finite 550)) None None (Some hideIfZero) = str ''5,50''
   \<and> integerWithDecimalsToAmountString (createMoneyThings (only_currencies cs))
     (Num (Finite 500)) None None (Some showAlways) = str ''5,00''
   \<and> integerWithDecimalsToAmountString (createMoneyThings (only_currencies cs))
     (Num (Finite 199)) None None (Some hideAlways) = str ''1''
   \<and> (\<forall>A F. localized_parts A F \<longrightarrow>
        amountNiceSuitableString hideAlways (A @ F) = A
        \<and> amountNiceSuitableString showAlways (A @ F) = A @ 0x2C # take 2 (tl F @ [0x30, 0x30])
        \<and> amountNiceSuitableString hideIfZero (A @ F) =
            (if F = [] then A else A @ 0x2C # take 2 (tl F @ [0x30, 0x30])))
   \<and> (\<forall>a. \<exists>d1 d2. isDigit d1 \<and> isDigit d2 \<and>
        integerWithDecimalsToAmountString (createMoneyThings (only_currencies cs))
          a None None (Some showAlways)
        = integerWithDecimalsToAmountString (createMoneyThings (only_currencies cs))
            a None None (Some hideAlways) @ [0x2C, d1, d2])
   \<and> (\<forall>n a. \<bar>n\<bar> \<le> 2 ^ 52 \<and> (a = Num (Finite (of_int n)) \<or> a = BigInt n) \<longrightarrow>
        integerWithDecimalsToAmountString (createMoneyThings (only_currencies cs))
          a None None (Some hideAlways) = sign_str n @ grouped_by [0xA0] (\<bar>n\<bar> div 100))"
proof -
  let ?t = "createMoneyThings (only_currencies cs)"
  have fr: "\<And>n po. \<bar>n\<bar> \<le> 2 ^ 48 \<Longrightarrow>
      integerWithDecimalsToAmountString ?t (Num (Finite (of_int n))) None None (Some po) =
      rendering (str '','') [0xA0] po n"
    using format_rendering[of _ _ None ?t None] by (simp add: or_default_def)
  have 1: "integerWithDecimalsToAmountString ?t (Num (Finite 500)) None None (Some hideIfZero)
      = str ''5''"
    using fr[of 500 hideIfZero] by (simp add: rendering_500)
  have 2: "integerWithDecimalsToAmountString ?t (Num (Finite 550)) None None (Some hideIfZero)
      = str ''5,50''"
    using fr[of 550 hideIfZero] by (simp add: rendering_550)
  have 3: "integerWithDecimalsToAmountString ?t (Num (Finite 500)) None None (Some showAlways)
      = str ''5,00''"
    using fr[of 500 showAlways] by (simp add: rendering_500_show)
  have 4: "integerWithDecimalsToAmountString ?t (Num (Finite 199)) None None (Some hideAlways)
      = str ''1''"
    using fr[of 199 hideAlways] by (simp add: rendering_199_hide)
  have 5: "\<exists>d1 d2. isDigit d1 \<and> isDigit d2 \<and>
        integerWithDecimalsToAmountString ?t a None None (Some showAlways)
        = integerWithDecimalsToAmountString ?t a None None (Some hideAlways) @ [0x2C, d1, d2]"
    for a
  proof -
    obtain A F where s: "toLocaleString_deDE (integerWithDecimalsToFloatNumber a) = A @ F"
      and p: "localized_parts A F"
      using toLocaleString_parts by blast
    from two_fraction_digits[OF p] suitable_parts(2)[OF p]
    obtain d1 d2 where d: "isDigit d1" "isDigit d2"
      "amountNiceSuitableString showAlways (A @ F) = A @ [0x2C, d1, d2]" by auto
    have nd: "d1 \<noteq> 0x2E" "d2 \<noteq> 0x2E" using d(1,2) by (auto simp: isDigit_def)
    have "integerWithDecimalsToAmountString ?t a None None (Some showAlways)
          = map (\<lambda>x. if x = 0x2E then 0xA0 else x) (A @ [0x2C, d1, d2])"
      by (simp add: integerWithDecimalsToAmountString_def Let_def or_default_def s d(3)
          default_substitution str_def)
    moreover have "integerWithDecimalsToAmountString ?t a None None (Some hideAlways)
          = map (\<lambda>x. if x = 0x2E then 0xA0 else x) A"
      by (simp add: integerWithDecimalsToAmountString_def Let_def or_default_def s
          suitable_parts(1)[OF p] default_substitution str_def)
    ultimately show ?thesis using d(1,2) nd by auto
  qed
  have 6: "\<forall>n a. \<bar>n\<bar> \<le> 2 ^ 52 \<and> (a = Num (Finite (of_int n)) \<or> a = BigInt n) \<longrightarrow>
        integerWithDecimalsToAmountString ?t a None None (Some hideAlways)
        = sign_str n @ grouped_by [0xA0] (\<bar>n\<bar> div 100)"
    using format_hideAlways[of _ _ None ?t None] by (simp add: or_default_def)
  have 7: "\<forall>A F. localized_parts A F \<longrightarrow>
        amountNiceSuitableString hideAlways (A @ F) = A
        \<and> amountNiceSuitableString showAlways (A @ F) = A @ 0x2C # take 2 (tl F @ [0x30, 0x30])
        \<and> amountNiceSuitableString hideIfZero (A @ F) =
            (if F = [] then A else A @ 0x2C # take 2 (tl F @ [0x30, 0x30]))"
    using suitable_parts by blast
  from 1 2 3 4 7 5 6 show ?thesis by blast
qed

text \<open>
  The hypotheses of C2 hold at \<open>-123456789\<close> cents, which \<open>hideAlways\<close> shows as
  \<open>-1 234 567\<close> with U+00A0 between the groups, and at the localized text \<open>1.234,5\<close>, which
  \<open>showAlways\<close> turns into \<open>1.234,50\<close>.
\<close>

theorem C2_decimal_policy_witness:
  "\<bar>- 123456789 :: int\<bar> \<le> 2 ^ 52
   \<and> integerWithDecimalsToAmountString (createMoneyThings (only_currencies [usd]))
         (BigInt (- 123456789)) None None (Some hideAlways)
       = str ''-1'' @ [0xA0] @ str ''234'' @ [0xA0] @ str ''567''
   \<and> localized_parts (str ''1.234'') (str '',5'')
   \<and> amountNiceSuitableString showAlways (str ''1.234'' @ str '',5'') = str ''1.234,50''"
proof -
  have h: "\<bar>- 123456789 :: int\<bar> \<le> 2 ^ 52" by simp
  have v: "sign_str (- 123456789) @ grouped_by [0xA0] (\<bar>- 123456789\<bar> div 100)
           = str ''-1'' @ [0xA0] @ str ''234'' @ [0xA0] @ str ''567''"
    by code_simp
  have p: "localized_parts (str ''1.234'') (str '',5'')"
    by (simp add: localized_parts_def str_def isDigit_def)
  have q: "str ''1.234'' @ 0x2C # take 2 (tl (str '',5'') @ [0x30, 0x30]) = str ''1.234,50''"
    by (simp add: str_def)
  note C = C2_decimal_policy[of "[usd]"]
  from C h
  have a: "integerWithDecimalsToAmountString (createMoneyThings (only_currencies [usd]))
         (BigInt (- 123456789)) None None (Some hideAlways)
        = sign_str (- 123456789) @ grouped_by [0xA0] (\<bar>- 123456789\<bar> div 100)"
    by blast
  from C p
  have b: "amountNiceSuitableString showAlways (str ''1.234'' @ str '',5'')
        = str ''1.234'' @ 0x2C # take 2 (tl (str '',5'') @ [0x30, 0x30])"
    by blast
  from a b h v p q show ?thesis by simp
qed

section \<open>From cents to a float and back\<close>

lemma floor_half_unique:
  fixes y :: rat and n :: int
  assumes "\<bar>y - of_int n\<bar> < 1 / 2"
  shows "\<lfloor>y + 1 / 2\<rfloor> = n"
proof (rule floor_unique)
  show "of_int n \<le> y + 1 / 2" using assms by linarith
  show "y + 1 / 2 < of_int n + 1" using assms by linarith
qed

lemma floor_half [simp]: "\<lfloor>1 / 2 :: rat\<rfloor> = 0"
  by (rule floor_unique) simp_all

lemma cents_round_trip:
  fixes n :: int
  assumes "\<bar>n\<bar> \<le> 2 ^ 50"
  shows "Math_round (times_pos (Finite (rd (of_int n / 100))) 100) = Finite (of_int n)"
proof (cases "n = 0")
  case True
  then show ?thesis by (simp add: rd_def times_pos_def Math_round_def)
next
  case False
  define x :: rat where "x = of_int n / 100"
  define d where "d = rd x"
  define N :: rat where "N = \<bar>of_int n\<bar>"
  have n52: "\<bar>n\<bar> \<le> 2 ^ 52" using assms by simp
  have N1: "1 \<le> N" unfolding N_def using False by (rule of_int_abs_ge1)
  have "\<bar>of_int n :: rat\<bar> \<le> of_int (2 ^ 50)" using assms by (rule of_int_abs_le)
  then have N50: "N \<le> 2 ^ 50" by (simp add: N_def)
  have ax: "\<bar>x\<bar> = N / 100" by (simp add: x_def N_def)
  have "\<bar>d - x\<bar> \<le> \<bar>x\<bar> / 2 ^ 53" using scaled_float(2)[OF n52] by (simp add: d_def x_def)
  then have e1: "\<bar>d * 100 - of_int n\<bar> \<le> N / 2 ^ 53"
  proof -
    assume a: "\<bar>d - x\<bar> \<le> \<bar>x\<bar> / 2 ^ 53"
    have "d * 100 - of_int n = (d - x) * 100" by (simp add: x_def algebra_simps)
    then have "\<bar>d * 100 - of_int n\<bar> = \<bar>(d - x) * 100\<bar>" by (simp only:)
    also have "\<dots> = \<bar>d - x\<bar> * 100" using abs_mult[of "d - x" "100::rat"] by simp
    also have "\<dots> \<le> (\<bar>x\<bar> / 2 ^ 53) * 100" using a by simp
    also have "\<dots> = N / 2 ^ 53" by (simp add: ax)
    finally show ?thesis .
  qed
  have small: "N / 2 ^ 53 \<le> 1 / 8"
  proof -
    have "N / 2 ^ 53 \<le> 2 ^ 50 / 2 ^ 53" using N50 by (simp add: divide_right_mono)
    then show ?thesis by simp
  qed
  have dn: "\<bar>\<bar>d * 100\<bar> - N\<bar> \<le> 1 / 8" using e1 small unfolding N_def by linarith
  have lo: "d * 100 = 0 \<or> 1 / 128 \<le> \<bar>d * 100\<bar>" using dn N1 by linarith
  have "\<bar>d * 100\<bar> \<le> 2 ^ 50 + 1 / 8" using dn N50 by linarith
  then have hi: "\<bar>d * 100\<bar> \<le> 2 ^ 60" by simp
  note fm = fround_moderate[OF lo hi]
  define y where "y = rd (d * 100)"
  have e2: "\<bar>y - d * 100\<bar> \<le> 1 / 4"
  proof -
    have "\<bar>d * 100\<bar> / 2 ^ 53 \<le> (2 ^ 50 + 1 / 8) / 2 ^ 53"
      using \<open>\<bar>d * 100\<bar> \<le> 2 ^ 50 + 1 / 8\<close> by (simp add: divide_right_mono)
    also have "\<dots> \<le> 1 / 4" by simp
    finally show ?thesis using fm(2) by (simp add: y_def)
  qed
  have "\<bar>y - of_int n\<bar> \<le> 3 / 8" using e1 e2 small by linarith
  then have close: "\<bar>y - of_int n\<bar> < 1 / 2" by simp
  then have k: "\<lfloor>y + 1 / 2\<rfloor> = n" by (rule floor_half_unique)
  have "times_pos (Finite d) 100 = Finite y" using fm(1) by (simp add: times_pos_def y_def)
  then show ?thesis using k False by (simp add: Math_round_def d_def x_def)
qed

section \<open>Reading a formatted amount\<close>

lemma remove_all_single: "remove_all [c] s = filter (\<lambda>x. x \<noteq> c) s"
proof (induction s)
  case Nil
  show ?case by simp
next
  case (Cons x xs)
  then show ?case by (simp add: starts_with_def)
qed

lemma filter_digits:
  "(\<And>x. x \<in> set s \<Longrightarrow> isDigit x) \<Longrightarrow> \<not> isDigit c \<Longrightarrow> filter (\<lambda>x. x \<noteq> c) s = s"
  by (induction s) auto

lemma decimal_step: "10 \<le> n \<Longrightarrow> decimal n = decimal (n div 10) @ [digit_char (n mod 10)]"
  by (simp add: decimal.simps[of n])

lemma decimal_thousands:
  assumes "1000 \<le> n"
  shows "decimal n = decimal (n div 1000) @ pad3 (n mod 1000)"
proof -
  have a: "10 \<le> n" "10 \<le> n div 10" "10 \<le> n div 100" using assms by simp_all
  have d: "n div 10 div 10 = n div 100" "n div 100 div 10 = n div 1000"
    by (simp_all add: div_mult2_eq[symmetric])
  have s1: "decimal n = decimal (n div 10) @ [digit_char (n mod 10)]"
    by (rule decimal_step[OF a(1)])
  have s2: "decimal (n div 10) = decimal (n div 100) @ [digit_char (n div 10 mod 10)]"
    using decimal_step[OF a(2)] by (simp only: d)
  have s3: "decimal (n div 100) = decimal (n div 1000) @ [digit_char (n div 100 mod 10)]"
    using decimal_step[OF a(3)] by (simp only: d)
  have "n mod 1000 div 100 = n div 100 mod 10"
    using zmod_zmult2_eq[of 10 n 100] by simp
  then have m2: "n mod 1000 div 100 mod 10 = n div 100 mod 10" by simp
  have "n mod 1000 div 10 = n div 10 mod 100"
    using zmod_zmult2_eq[of 100 n 10] by simp
  moreover have "n div 10 mod 100 mod 10 = n div 10 mod 10"
    by (rule mod_mod_cancel) simp
  ultimately have m1: "n mod 1000 div 10 mod 10 = n div 10 mod 10" by simp
  have m0: "n mod 1000 mod 10 = n mod 10" by (rule mod_mod_cancel) simp
  show ?thesis by (simp add: s1 s2 s3 pad3_def m2 m1 m0)
qed

lemma filter_grouped_by:
  assumes "0 \<le> n" "\<not> isDigit c"
  shows "filter (\<lambda>x. x \<noteq> c) (grouped_by [c] n) = decimal n"
  using assms(1)
proof (induction "[c]" n rule: grouped_by.induct)
  case (1 n)
  show ?case
  proof (cases "n < 1000")
    case True
    then show ?thesis
      using filter_digits[OF isDigit_decimal[OF 1(2)] assms(2)]
      by (simp add: grouped_by.simps[of "[c]" n])
  next
    case False
    then have "0 \<le> n div 1000" "1000 \<le> n" by simp_all
    moreover have "filter (\<lambda>x. x \<noteq> c) (pad3 (n mod 1000)) = pad3 (n mod 1000)"
      by (rule filter_digits[OF isDigit_pad3 assms(2)])
    ultimately show ?thesis
      using 1 False
      by (simp add: grouped_by.simps[of "[c]" n] decimal_thousands)
  qed
qed

lemma replace_first_char:
  "c \<notin> set a \<Longrightarrow> replace_first [c] r (a @ c # b) = a @ r @ b"
  by (induction a) (auto simp: starts_with_def)

lemma digits_value_snoc: "digits_value (ds @ [c]) = 10 * digits_value ds + digit_value c"
  by (simp add: digits_value_def)

lemma digits_value_decimal: "0 \<le> n \<Longrightarrow> digits_value (decimal n) = n"
proof (induction n rule: decimal.induct)
  case (1 n)
  show ?case
  proof (cases "n < 10")
    case True
    then show ?thesis using 1(2)
      by (simp add: decimal.simps[of n] digits_value_def digit_value_digit_char)
  next
    case False
    then have "0 \<le> n div 10" by simp
    then have "digits_value (decimal (n div 10)) = n div 10" using 1(1) False by simp
    then show ?thesis using False
      by (simp add: decimal.simps[of n] digits_value_snoc digit_value_digit_char)
  qed
qed

lemma digits_value_two_digits:
  assumes "0 \<le> f" "f < 100"
  shows "digits_value (two_digits f) = f"
proof -
  have "0 \<le> f div 10" "f div 10 < 10" using assms by simp_all
  then show ?thesis
    by (simp add: two_digits_def digits_value_def digit_value_digit_char)
qed

lemma decimal_nonempty: "decimal n \<noteq> []"
  by (simp add: decimal.simps[of n])

lemma decimal_hd_digit: "0 \<le> n \<Longrightarrow> isDigit (hd (decimal n))"
  using isDigit_decimal[of n "hd (decimal n)"] decimal_nonempty[of n] by simp

lemma takeWhile_digits:
  "\<forall>x\<in>set ds. isDigit x \<Longrightarrow> \<not> isDigit c \<Longrightarrow>
   takeWhile isDigit (ds @ c # r) = ds \<and> dropWhile isDigit (ds @ c # r) = c # r"
  by (induction ds) auto

lemma takeWhile_all_digits:
  "\<forall>x\<in>set ds. isDigit x \<Longrightarrow>
   takeWhile isDigit ds = ds \<and> dropWhile isDigit ds = []"
  by (induction ds) auto

lemma isDigit_facts:
  assumes "isDigit c"
  shows "\<not> isWhiteSpace c" "c \<noteq> 0x2D" "c \<noteq> 0x2B" "c \<noteq> 0x49" "c \<noteq> 0x2E"
  using assms by (auto simp: isDigit_def isWhiteSpace_def word_le_nat_alt)

lemma starts_with_hd: "starts_with p s \<Longrightarrow> p \<noteq> [] \<Longrightarrow> hd s = hd p"
  by (cases s; cases p) (auto simp: starts_with_def)

lemma parseFloat_canonical:
  fixes n :: int
  assumes "0 \<le> k" "0 \<le> f" "f < 100" "k = 0 \<and> f = 0 \<longrightarrow> \<not> n < 0"
  shows "parseFloat (sign_str n @ decimal k @ 0x2E # two_digits f) =
         (if k = 0 \<and> f = 0 then Finite 0
          else fround ((if n < 0 then - 1 else 1) * (of_int k + of_int f / 100)))"
proof -
  define body where "body = decimal k @ 0x2E # two_digits f"
  have hb: "isDigit (hd body)" "body \<noteq> []"
    using decimal_hd_digit[OF assms(1)] decimal_nonempty[of k] by (simp_all add: body_def)
  note hf = isDigit_facts[OF hb(1)]
  have ws: "dropWhile isWhiteSpace (sign_str n @ body) = sign_str n @ body"
    using hf(1) hb(2) by (cases body) (auto simp: sign_str_def isWhiteSpace_def)
  have hd_t: "hd (sign_str n @ body) = 0x2D \<longleftrightarrow> n < 0"
    using hf(2) by (simp add: sign_str_def)
  have plus: "hd (sign_str n @ body) \<noteq> 0x2B"
    using hf(3) by (simp add: sign_str_def)
  have u: "(if sign_str n @ body \<noteq> [] \<and> (hd (sign_str n @ body) = 0x2D \<or>
              hd (sign_str n @ body) = 0x2B) then tl (sign_str n @ body) else sign_str n @ body)
           = body"
    using hf(2,3) hb(2) by (simp add: sign_str_def)
  have notinf: "\<not> starts_with (str ''Infinity'') body"
  proof
    assume "starts_with (str ''Infinity'') body"
    then have "hd body = hd (str ''Infinity'')" by (rule starts_with_hd) (simp add: str_def)
    then show False using hf(4) by (simp add: str_def)
  qed
  have nd: "\<not> isDigit 0x2E" by (simp add: isDigit_def)
  have dk: "\<forall>x\<in>set (decimal k). isDigit x" using isDigit_decimal[OF assms(1)] by blast
  have df: "\<forall>x\<in>set (two_digits f). isDigit x" using isDigit_two_digits[OF assms(2,3)] by blast
  have tk: "takeWhile isDigit body = decimal k" "dropWhile isDigit body = 0x2E # two_digits f"
    using takeWhile_digits[OF dk nd, of "two_digits f"]
    by (simp_all add: body_def)
  have tf: "takeWhile isDigit (two_digits f) = two_digits f"
    "dropWhile isDigit (two_digits f) = []"
    using takeWhile_all_digits[OF df] by simp_all
  have l2: "length (two_digits f) = 2" by (simp add: two_digits_def)
  have ex: "exponent_part [] = 0" by (simp add: exponent_part_def)
  have mv0: "(of_int k + of_int f / (100::rat) = 0) \<longleftrightarrow> (k = 0 \<and> f = 0)"
  proof -
    have "(0::rat) \<le> of_int k" "(0::rat) \<le> of_int f" using assms(1,2) by simp_all
    then have "(of_int k + of_int f / (100::rat) = 0) \<longleftrightarrow> (of_int k = (0::rat) \<and> of_int f = (0::rat))"
      by (simp add: add_nonneg_eq_0_iff)
    then show ?thesis by simp
  qed
  have "parseFloat (sign_str n @ body) =
         (if k = 0 \<and> f = 0 then Finite 0
          else fround ((if n < 0 then - 1 else 1) * (of_int k + of_int f / 100)))"
    unfolding parseFloat_def Let_def ws u
    using notinf hb(2) hd_t assms(4) mv0
    by (simp add: tk tf l2 ex digits_value_decimal[OF assms(1)]
        digits_value_two_digits[OF assms(2,3)] decimal_nonempty)
  then show ?thesis by (simp add: body_def)
qed

lemma str_chars [simp]:
  "str '' '' = [0x20]" "str '','' = [0x2C]" "str ''.'' = [0x2E]"
  by (simp_all add: str_def)

lemma RegExp_new_space [simp]:
  "RegExp_new [0x20] = Returns (Literal [0x20])" "RegExp_new [0xA0] = Returns (Literal [0xA0])"
  by (simp_all add: RegExp_new_def isSyntaxCharacter_def)

lemma units_and_cents:
  fixes n k f :: int
  assumes "\<bar>n\<bar> = 100 * k + f"
  shows "of_int k + of_int f / (100::rat) = \<bar>of_int n\<bar> / 100"
proof -
  have "(of_int \<bar>n\<bar> :: rat) = of_int (100 * k + f)" using assms by (simp only:)
  also have "\<dots> = 100 * of_int k + of_int f" by simp
  finally have "\<bar>of_int n :: rat\<bar> = 100 * of_int k + of_int f" by simp
  then show ?thesis by simp
qed

lemma read_rendering:
  fixes n :: int
  assumes "\<bar>n\<bar> \<le> 2 ^ 50"
    and dp: "defaultDecimalPoint t = [0x2C]"
    and ts: "defaultThousandsSeparator t = [c]"
    and c: "c = 0xA0 \<or> c = 0x20"
  shows "amountStringToIntegerWithDecimals t (rendering [0x2C] [c] showAlways n) None None
         = Returns (Finite (of_int n))"
proof -
  define k where "k = \<bar>n\<bar> div 100"
  define f where "f = \<bar>n\<bar> mod 100"
  have k0: "0 \<le> k" and f0: "0 \<le> f" and f100: "f < 100" by (simp_all add: k_def f_def)
  have n52: "\<bar>n\<bar> \<le> 2 ^ 52" using assms(1) by simp
  have r: "rendering [0x2C] [c] showAlways n =
           sign_str n @ grouped_by [c] k @ 0x2C # two_digits f"
    by (simp add: rendering_def k_def f_def)
  have nsp: "\<not> isDigit c" "\<not> isDigit 0x2C" "c \<noteq> 0x2C" "c \<noteq> 0x2D"
    using c by (auto simp: isDigit_def)
  have re: "RegExp_new [c] = Returns (Literal [c])" using c by auto
  have ftd: "filter (\<lambda>x. x \<noteq> c) (two_digits f) = two_digits f"
    by (rule filter_digits[OF isDigit_two_digits[OF f0 f100] nsp(1)])
  have strip: "remove_all [c] (sign_str n @ grouped_by [c] k @ 0x2C # two_digits f) =
        sign_str n @ decimal k @ 0x2C # two_digits f"
    using nsp(3,4) by (simp add: remove_all_single filter_grouped_by[OF k0 nsp(1)] ftd sign_str_def)
  have nc: "0x2C \<notin> set (sign_str n @ decimal k)"
    using isDigit_decimal[OF k0, of "0x2C"] nsp(2) by (auto simp: sign_str_def)
  have point: "replace_first [0x2C] [0x2E] (sign_str n @ decimal k @ 0x2C # two_digits f) =
        sign_str n @ decimal k @ 0x2E # two_digits f"
    using replace_first_char[OF nc, of "[0x2E]" "two_digits f"] by simp
  have nkf: "\<bar>n\<bar> = 100 * k + f" by (simp add: k_def f_def)
  have zero: "k = 0 \<and> f = 0 \<longleftrightarrow> n = 0" using nkf k0 f0 by auto
  have z4: "k = 0 \<and> f = 0 \<longrightarrow> \<not> n < 0" using zero by simp
  have val: "(if n < 0 then - 1 else 1) * (of_int k + of_int f / (100::rat)) = of_int n / 100"
    unfolding units_and_cents[OF nkf] by simp
  have fr: "fround (of_int n / 100) = Finite (rd (of_int n / 100))"
    using scaled_float(1)[OF n52] by (simp add: divide_pos_def)
  have pf: "parseFloat (sign_str n @ decimal k @ 0x2E # two_digits f) =
        Finite (rd (of_int n / 100))"
    unfolding parseFloat_canonical[OF k0 f0 f100 z4] val fr
    using zero by (simp add: rd_def)
  show ?thesis
    unfolding r amountStringToIntegerWithDecimals_def Let_def
    by (simp add: or_default_def dp ts re replace_regexp_empty_def strip point pf
        cents_round_trip[OF assms(1)])
qed

lemma round_trip:
  fixes n :: int
  assumes "\<bar>n\<bar> \<le> 2 ^ 48" and "a = Num (Finite (of_int n)) \<or> a = BigInt n"
    and dp: "defaultDecimalPoint t = [0x2C]"
    and ts: "defaultThousandsSeparator t = [c]"
    and c: "c = 0xA0 \<or> c = 0x20"
  shows "amountStringToIntegerWithDecimals t
           (integerWithDecimalsToAmountString t a None None (Some showAlways)) None None
         = Returns (Finite (of_int n))"
proof -
  have pl: "plain [0x2C]" "plain [c]" "0x2C \<notin> set [c]"
    using c by (auto simp: plain_def)
  have "integerWithDecimalsToAmountString t a None None (Some showAlways) =
        rendering [0x2C] [c] showAlways n"
    using format_rendering[OF assms(1,2), of None t None "Some showAlways"] pl
    by (simp add: or_default_def dp ts)
  moreover have "\<bar>n\<bar> \<le> 2 ^ 50" using assms(1) by simp
  ultimately show ?thesis using read_rendering[OF _ dp ts c, of n] by simp
qed

section \<open>Claim C1: the round trip through the formatted string\<close>

text \<open>
  C1. With the factory's default decimal point \<open>,\<close> and its default thousands separator,
  which in the source is the no-break space U+00A0, for every integer amount \<open>n\<close> of
  magnitude at most \<open>2\<^sup>4\<^sup>8\<close> (a Number or a BigInt), \<open>amountStringToIntegerWithDecimals\<close>
  applied to the string that \<open>integerWithDecimalsToAmountString\<close> gives for \<open>n\<close> under
  \<open>showAlways\<close> returns \<open>n\<close>. The same holds of a factory created with the space U+0020
  as \<open>defaultThousandsSeparator\<close>.
\<close>

theorem C1_round_trip:
  fixes n :: int
  assumes "\<bar>n\<bar> \<le> 2 ^ 48" and "a = Num (Finite (of_int n)) \<or> a = BigInt n"
  shows "amountStringToIntegerWithDecimals (createMoneyThings (only_currencies cs))
           (integerWithDecimalsToAmountString (createMoneyThings (only_currencies cs))
              a None None (Some showAlways)) None None
         = Returns (Finite (of_int n))
       \<and> amountStringToIntegerWithDecimals
           (createMoneyThings ((only_currencies cs)\<lparr>p_defaultThousandsSeparator := Some [0x20]\<rparr>))
           (integerWithDecimalsToAmountString
              (createMoneyThings ((only_currencies cs)\<lparr>p_defaultThousandsSeparator := Some [0x20]\<rparr>))
              a None None (Some showAlways)) None None
         = Returns (Finite (of_int n))"
proof -
  let ?t = "createMoneyThings (only_currencies cs)"
  let ?u = "createMoneyThings ((only_currencies cs)\<lparr>p_defaultThousandsSeparator := Some [0x20]\<rparr>)"
  have t: "defaultDecimalPoint ?t = [0x2C]" "defaultThousandsSeparator ?t = [0xA0]"
    by simp_all
  have u: "defaultDecimalPoint ?u = [0x2C]" "defaultThousandsSeparator ?u = [0x20]"
    by (simp_all add: createMoneyThings_def only_currencies_def or_default_def)
  show ?thesis
    using round_trip[OF assms t] round_trip[OF assms u] by simp
qed

text \<open>
  The hypotheses of C1 hold at 123456 cents, formatted as \<open>1 234,56\<close> with the default
  U+00A0 between the groups, and read back.
\<close>

theorem C1_round_trip_witness:
  "\<bar>123456 :: int\<bar> \<le> 2 ^ 48
   \<and> integerWithDecimalsToAmountString (createMoneyThings (only_currencies [usd]))
         (Num (Finite 123456)) None None (Some showAlways)
       = str ''1'' @ [0xA0] @ str ''234,56''
   \<and> amountStringToIntegerWithDecimals (createMoneyThings (only_currencies [usd]))
         (integerWithDecimalsToAmountString (createMoneyThings (only_currencies [usd]))
            (Num (Finite 123456)) None None (Some showAlways)) None None
       = Returns (Finite 123456)"
proof -
  have h: "\<bar>123456 :: int\<bar> \<le> 2 ^ 48" by simp
  have v: "integerWithDecimalsToAmountString (createMoneyThings (only_currencies [usd]))
         (Num (Finite 123456)) None None (Some showAlways)
       = str ''1'' @ [0xA0] @ str ''234,56''"
    by code_simp
  show ?thesis using h v C1_round_trip[OF h, of "Num (Finite 123456)" "[usd]"] by simp
qed

section \<open>Claim C9: from cents to a float and back\<close>

text \<open>
  C9 (as amended). For every integer \<open>n\<close> of magnitude at most \<open>2\<^sup>5\<^sup>0\<close> (a Number or a
  BigInt), \<open>floatNumberToIntegerWithDecimals (integerWithDecimalsToFloatNumber n)\<close> is \<open>n\<close>:
  both roundings of binary64 together stay below half a cent.
\<close>

theorem C9_scale_round_trip:
  fixes n :: int
  assumes "\<bar>n\<bar> \<le> 2 ^ 50" and "a = Num (Finite (of_int n)) \<or> a = BigInt n"
  shows "floatNumberToIntegerWithDecimals (integerWithDecimalsToFloatNumber a)
         = Finite (of_int n)"
proof -
  have n52: "\<bar>n\<bar> \<le> 2 ^ 52" using assms(1) by simp
  have "integerWithDecimalsToFloatNumber a = Finite (rd (of_int n / 100))"
    using assms(2) scaled_float(1)[OF n52]
    by (auto simp: integerWithDecimalsToFloatNumber_def Number_of_bigint_safe[OF n52])
  then show ?thesis
    using cents_round_trip[OF assms(1)] by (simp add: floatNumberToIntegerWithDecimals_def)
qed

text \<open>The hypotheses of C9 hold at \<open>-199\<close> cents.\<close>

theorem C9_scale_round_trip_witness:
  "\<bar>- 199 :: int\<bar> \<le> 2 ^ 50
   \<and> floatNumberToIntegerWithDecimals (integerWithDecimalsToFloatNumber (BigInt (- 199)))
       = Finite (- 199)"
proof -
  have h: "\<bar>- 199 :: int\<bar> \<le> 2 ^ 50" by simp
  show ?thesis using h C9_scale_round_trip[OF h, of "BigInt (- 199)"] by simp
qed

text \<open>
  C9 as stated, for every integer, fails at the safe integer 3651123517360934: the
  quotient by 100 rounds to 36511235173609.34375, its product with 100 is
  3651123517360934.375, which rounds to the half-integer 3651123517360934.5, and
  \<open>Math.round\<close> takes that up to 3651123517360935.
\<close>

theorem C9_every_integer_counterexample:
  "floatNumberToIntegerWithDecimals (integerWithDecimalsToFloatNumber
     (Num (Finite 3651123517360934))) = Finite 3651123517360935"
  by code_simp

lemma Math_round_int [simp]: "Math_round (Finite (of_int k)) = Finite (of_int k)"
proof -
  have "\<lfloor>(of_int k :: rat) + 1 / 2\<rfloor> = k" by (rule floor_unique) simp_all
  then show ?thesis by (auto simp: Math_round_def Let_def)
qed





section \<open>Claim C7: the currency symbol\<close>



section \<open>Claim C5: exceptions\<close>

text \<open>
  C5 fails on the code: \<open>amountStringToIntegerWithDecimals\<close> passes the thousands
  separator to \<open>new RegExp\<close> as it is, so the separator \<open>(\<close> throws a SyntaxError, for every
  amount string and decimal point, and \<open>amountStringToFloatNumber\<close> throws with it.
\<close>

theorem C5_unescaped_separator_throws:
  "amountStringToIntegerWithDecimals t s dp (Some (str ''('')) = Throws SyntaxError
   \<and> amountStringToFloatNumber t s dp (Some (str ''('')) = Throws SyntaxError"
  by (simp add: amountStringToIntegerWithDecimals_def amountStringToFloatNumber_def
      or_default_def RegExp_new_def isSyntaxCharacter_def str_def)

section \<open>Claim C3: separators that reuse the intermediate ones\<close>

text \<open>
  C3 fails on the code: with the thousands separator \<open>,\<close> and the decimal point \<open>.\<close> the
  first pass turns the group separators into commas and the second pass turns every
  comma into the decimal point, so 123456 cents come out as \<open>1.234.56\<close> and not as the
  rendering \<open>1,234.56\<close> with those separators.
\<close>

theorem C3_separator_collision:
  "integerWithDecimalsToAmountString (createMoneyThings (only_currencies [usd]))
     (Num (Finite 123456)) (Some (str ''.'')) (Some (str '','')) (Some showAlways)
     = str ''1.234.56''
   \<and> rendering (str ''.'') (str '','') showAlways 123456 = str ''1,234.56''"
  by code_simp

section \<open>Claim C4: the range of the limited validator\<close>

text \<open>
  C4 fails on the code: the refinement of \<open>zAmountRawLimited\<close> gives the string to
  \<open>parseFloat\<close> with its decimal comma, so only the whole units are compared. With the
  limits 0 and 1000 the string \<open>10,50\<close> is accepted and transformed to 1050, above the
  maximum. The two examples of the claim hold: \<open>15,00\<close> is rejected and \<open>5,00\<close> gives 500.
\<close>

theorem C4_limited_ignores_fraction:
  "zAmountRawLimited (createMoneyThings (only_currencies [usd])) (Finite 0) (Finite 1000)
     (str ''10,50'') = Returns (str ''10,50'')
   \<and> zAmountIntegerWithDecimalsLimited (createMoneyThings (only_currencies [usd]))
       (Finite 0) (Finite 1000) (str ''10,50'') = Returns (Finite 1050)
   \<and> zAmountIntegerWithDecimalsLimited (createMoneyThings (only_currencies [usd]))
       (Finite 0) (Finite 1000) (str ''15,00'') = Throws ZodError
   \<and> zAmountIntegerWithDecimalsLimited (createMoneyThings (only_currencies [usd]))
       (Finite 0) (Finite 1000) (str ''5,00'') = Returns (Finite 500)"
  by code_simp

section \<open>Claim C8: strings without a number\<close>

lemma takeWhile_hd: "xs = [] \<or> \<not> P (hd xs) \<Longrightarrow> takeWhile P xs = [] \<and> dropWhile P xs = xs"
  by (cases xs) auto

lemma parseFloat_NaN:
  assumes "\<not> has_numeric_prefix s"
  shows "parseFloat s = NaN"
proof -
  define u where "u = unsigned (dropWhile isWhiteSpace s)"
  have ni: "\<not> starts_with (str ''Infinity'') u"
    and nd: "u = [] \<or> \<not> isDigit (hd u)"
    and nf: "u = [] \<or> hd u \<noteq> 0x2E \<or> tl u = [] \<or> \<not> isDigit (hd (tl u))"
    using assms by (auto simp: has_numeric_prefix_def Let_def u_def)
  have ip: "takeWhile isDigit u = []" "dropWhile isDigit u = u"
    using takeWhile_hd[of u isDigit] nd by simp_all
  have fp: "u \<noteq> [] \<Longrightarrow> hd u = 0x2E \<Longrightarrow> takeWhile isDigit (tl u) = []"
    using nf takeWhile_hd[of "tl u" isDigit] by auto
  have "parseFloat s =
     (if starts_with (str ''Infinity'') u
      then (if dropWhile isWhiteSpace s \<noteq> [] \<and> hd (dropWhile isWhiteSpace s) = 0x2D
            then NegInfinity else PosInfinity)
      else
        (let ip = takeWhile isDigit u;
             r1 = dropWhile isDigit u;
             has_dot = (r1 \<noteq> [] \<and> hd r1 = 0x2E);
             fp = (if has_dot then takeWhile isDigit (tl r1) else []);
             r2 = (if has_dot then dropWhile isDigit (tl r1) else r1)
         in if ip = [] \<and> fp = [] then NaN
            else
              (let mv = (of_int (digits_value ip) + of_int (digits_value fp) / 10 ^ length fp)
                          * 10 powi exponent_part r2
               in if mv = 0
                  then (if dropWhile isWhiteSpace s \<noteq> [] \<and> hd (dropWhile isWhiteSpace s) = 0x2D
                        then NegZero else Finite 0)
                  else fround (if dropWhile isWhiteSpace s \<noteq> [] \<and>
                                  hd (dropWhile isWhiteSpace s) = 0x2D then - mv else mv))))"
    by (simp add: parseFloat_def Let_def u_def unsigned_def)
  then show ?thesis using ni fp by (simp add: ip Let_def)
qed

lemma NaN_propagates [simp]:
  "times_pos NaN c = NaN" "divide_pos NaN c = NaN" "Math_round NaN = NaN"
  by (simp_all add: times_pos_def divide_pos_def Math_round_def)

text \<open>
  C8 (as amended). Whenever the thousands separator is a pattern of the model and the
  amount string, with the separator's matches removed and the first decimal point
  replaced by \<open>.\<close>, has no numeric prefix, \<open>amountStringToIntegerWithDecimals\<close> returns NaN, not
  zero or another default, and so does \<open>amountStringToFloatNumber\<close>.
\<close>

theorem C8_no_number_is_NaN:
  assumes "RegExp_new (or_default tso (defaultThousandsSeparator t)) = Returns re"
    and "\<not> has_numeric_prefix
           (replace_first (or_default dpo (defaultDecimalPoint t)) (str ''.'')
              (replace_regexp_empty re s))"
  shows "amountStringToIntegerWithDecimals t s dpo tso = Returns NaN
         \<and> amountStringToFloatNumber t s dpo tso = Returns NaN"
proof -
  have 1: "amountStringToIntegerWithDecimals t s dpo tso = Returns NaN"
    using assms(1) parseFloat_NaN[OF assms(2)]
    by (simp add: amountStringToIntegerWithDecimals_def Let_def)
  have "amountStringToIntegerWithDecimals t s
          (Some (or_default dpo (defaultDecimalPoint t)))
          (Some (or_default tso (defaultThousandsSeparator t)))
        = amountStringToIntegerWithDecimals t s dpo tso"
    by (simp add: amountStringToIntegerWithDecimals_def or_default_def)
  then have 2: "amountStringToFloatNumber t s dpo tso = Returns NaN"
    using 1
    by (simp add: amountStringToFloatNumber_def Let_def integerWithDecimalsToFloatNumber_def)
  from 1 2 show ?thesis by simp
qed

text \<open>The hypotheses of C8 hold for \<open>abc\<close> under the default separators.\<close>

theorem C8_no_number_is_NaN_witness:
  "RegExp_new (or_default None
       (defaultThousandsSeparator (createMoneyThings (only_currencies [usd]))))
     = Returns (Literal [0xA0])
   \<and> \<not> has_numeric_prefix
         (replace_first
            (or_default None (defaultDecimalPoint (createMoneyThings (only_currencies [usd]))))
            (str ''.'') (replace_regexp_empty (Literal [0xA0]) (str ''abc'')))
   \<and> amountStringToIntegerWithDecimals (createMoneyThings (only_currencies [usd]))
         (str ''abc'') None None = Returns NaN
   \<and> amountStringToFloatNumber (createMoneyThings (only_currencies [usd]))
         (str ''abc'') None None = Returns NaN"
proof -
  let ?t = "createMoneyThings (only_currencies [usd])"
  have a: "RegExp_new (or_default None (defaultThousandsSeparator ?t))
           = Returns (Literal [0xA0])"
    by code_simp
  have b: "\<not> has_numeric_prefix
         (replace_first (or_default None (defaultDecimalPoint ?t))
            (str ''.'') (replace_regexp_empty (Literal [0xA0]) (str ''abc'')))"
    by code_simp
  from C8_no_number_is_NaN[OF a b] a b show ?thesis by blast
qed

text \<open>
  C8 as stated fails for a string that is not a number but starts like one: \<open>12abc\<close> is no
  numeric string, yet \<open>parseFloat\<close> reads its prefix 12, and the results are 1200 and 12.
\<close>

theorem C8_non_numeric_counterexample:
  "\<not> is_numeric_string
       (replace_first (str '','') (str ''.'') (remove_all [0xA0] (str ''12abc'')))
   \<and> amountStringToIntegerWithDecimals (createMoneyThings (only_currencies [usd]))
         (str ''12abc'') None None = Returns (Finite 1200)
   \<and> amountStringToFloatNumber (createMoneyThings (only_currencies [usd]))
         (str ''12abc'') None None = Returns (Finite 12)"
  by code_simp

section \<open>The matcher decides the language\<close>

lemma nullable_iff: "nullable r \<longleftrightarrow> [] \<in> lang r"
  by (induction r) (auto intro: star_nil)

lemma star_cons_split:
  assumes "x \<in> star A" "x = c # w"
  shows "\<exists>u v. w = u @ v \<and> c # u \<in> A \<and> v \<in> star A"
  using assms
proof (induction arbitrary: w rule: star.induct)
  case star_nil
  then show ?case by simp
next
  case (star_step u v)
  show ?case
  proof (cases u)
    case Nil
    then have "v = c # w" using star_step.prems by simp
    then show ?thesis by (rule star_step.IH)
  next
    case (Cons a u')
    then have "a = c" "w = u' @ v" using star_step.prems by simp_all
    then show ?thesis using star_step.hyps Cons by blast
  qed
qed

lemma star_cons_iff:
  "c # w \<in> star A \<longleftrightarrow> (\<exists>u v. w = u @ v \<and> c # u \<in> A \<and> v \<in> star A)"
proof
  assume "c # w \<in> star A"
  then show "\<exists>u v. w = u @ v \<and> c # u \<in> A \<and> v \<in> star A"
    by (rule star_cons_split) simp
next
  assume "\<exists>u v. w = u @ v \<and> c # u \<in> A \<and> v \<in> star A"
  then obtain u v where "w = u @ v" "c # u \<in> A" "v \<in> star A" by blast
  then show "c # w \<in> star A" using star_step[of "c # u" A v] by simp
qed

lemma lang_deriv: "w \<in> lang (deriv c r) \<longleftrightarrow> c # w \<in> lang r"
proof (induction r arbitrary: w)
  case (Seq r1 r2)
  have "c # w \<in> lang (Seq r1 r2) \<longleftrightarrow>
        (\<exists>u v. w = u @ v \<and> c # u \<in> lang r1 \<and> v \<in> lang r2) \<or> ([] \<in> lang r1 \<and> c # w \<in> lang r2)"
    by (auto simp: Cons_eq_append_conv)
  then show ?case using Seq by (auto simp: nullable_iff)
next
  case (Star r)
  then show ?case by (auto simp: star_cons_iff)
qed auto

lemma rx_test_iff: "rx_test r s \<longleftrightarrow> s \<in> lang r"
proof -
  have "nullable (foldl (\<lambda>r c. deriv c r) r s) \<longleftrightarrow> s \<in> lang r"
    by (induction s arbitrary: r) (simp_all add: nullable_iff lang_deriv)
  then show ?thesis by (simp add: rx_test_def)
qed

section \<open>The language of \<open>amountStringRegex\<close>\<close>

lemma star_singletons: "star {[c] | c. P c} = {w. \<forall>c \<in> set w. P c}"
proof (intro set_eqI iffI)
  fix w assume "w \<in> star {[c] | c. P c}"
  then show "w \<in> {w. \<forall>c \<in> set w. P c}" by (induction rule: star.induct) auto
next
  fix w assume "w \<in> {w. \<forall>c \<in> set w. P c}"
  then have "\<forall>c \<in> set w. P c" by simp
  then show "w \<in> star {[c] | c. P c}"
  proof (induction w)
    case Nil
    show ?case by (rule star_nil)
  next
    case (Cons a w)
    then have "[a] \<in> {[c] | c. P c}" "w \<in> star {[c] | c. P c}" by auto
    then have "[a] @ w \<in> star {[c] | c. P c}" by (rule star_step)
    then show ?case by simp
  qed
qed

lemma lang_spaces: "lang (Star (Atom ClassSpace)) = {w. \<forall>c \<in> set w. isWhiteSpace c}"
  using star_singletons[of isWhiteSpace] by simp

lemma lang_digits: "lang (Star (Atom ClassDigit)) = {w. \<forall>c \<in> set w. isDigit c}"
  using star_singletons[of isDigit] by simp

lemma lang_groups:
  "lang (Star (Seq (Star (Atom ClassSpace)) (Star (Atom ClassDigit)))) =
     {w. \<forall>c \<in> set w. isDigit c \<or> isWhiteSpace c}"
proof (intro set_eqI iffI)
  let ?G = "lang (Seq (Star (Atom ClassSpace)) (Star (Atom ClassDigit)))"
  fix w assume "w \<in> lang (Star (Seq (Star (Atom ClassSpace)) (Star (Atom ClassDigit))))"
  then have "w \<in> star ?G" by simp
  then show "w \<in> {w. \<forall>c \<in> set w. isDigit c \<or> isWhiteSpace c}"
  proof (induction rule: star.induct)
    case star_nil
    show ?case by simp
  next
    case (star_step u v)
    from star_step.hyps(1) obtain a b where "u = a @ b"
      "a \<in> lang (Star (Atom ClassSpace))" "b \<in> lang (Star (Atom ClassDigit))"
      by auto
    then have "\<forall>c \<in> set u. isDigit c \<or> isWhiteSpace c"
      unfolding lang_spaces lang_digits by auto
    then show ?case using star_step.IH by auto
  qed
next
  let ?G = "lang (Seq (Star (Atom ClassSpace)) (Star (Atom ClassDigit)))"
  fix w assume "w \<in> {w. \<forall>c \<in> set w. isDigit c \<or> isWhiteSpace c}"
  then have "\<forall>c \<in> set w. isDigit c \<or> isWhiteSpace c" by simp
  then have "w \<in> star ?G"
  proof (induction w)
    case Nil
    show ?case by (rule star_nil)
  next
    case (Cons a w)
    have "[a] \<in> ?G"
    proof (cases "isWhiteSpace a")
      case True
      then have "[a] \<in> lang (Star (Atom ClassSpace))" "[] \<in> lang (Star (Atom ClassDigit))"
        unfolding lang_spaces lang_digits by simp_all
      then have "[a] @ [] \<in> ?G" unfolding lang.simps(5) by blast
      then show ?thesis by simp
    next
      case False
      then have "isDigit a" using Cons.prems by simp
      then have "[] \<in> lang (Star (Atom ClassSpace))" "[a] \<in> lang (Star (Atom ClassDigit))"
        unfolding lang_spaces lang_digits by simp_all
      then have "[] @ [a] \<in> ?G" unfolding lang.simps(5) by blast
      then show ?thesis by simp
    qed
    moreover have "w \<in> star ?G" using Cons by simp
    ultimately have "[a] @ w \<in> star ?G" by (rule star_step)
    then show ?case by simp
  qed
  then show "w \<in> lang (Star (Seq (Star (Atom ClassSpace)) (Star (Atom ClassDigit))))" by simp
qed

lemma lang_two_digits:
  "lang (Opt (Seq (Atom ClassDigit) (Opt (Atom ClassDigit)))) =
     {ds. length ds \<le> 2 \<and> (\<forall>c \<in> set ds. isDigit c)}"
proof (intro set_eqI iffI)
  fix ds assume "ds \<in> lang (Opt (Seq (Atom ClassDigit) (Opt (Atom ClassDigit))))"
  then show "ds \<in> {ds. length ds \<le> 2 \<and> (\<forall>c \<in> set ds. isDigit c)}"
    by (auto simp: Opt_def)
next
  fix ds assume "ds \<in> {ds. length ds \<le> 2 \<and> (\<forall>c \<in> set ds. isDigit c)}"
  then have l: "length ds \<le> 2" and d: "\<forall>c \<in> set ds. isDigit c" by simp_all
  consider "ds = []" | a where "ds = [a]" | a b where "ds = [a, b]"
    using l by (cases ds; cases "tl ds"; cases "tl (tl ds)") auto
  then show "ds \<in> lang (Opt (Seq (Atom ClassDigit) (Opt (Atom ClassDigit))))"
  proof cases
    case 1
    then show ?thesis by (simp add: Opt_def)
  next
    case 2
    then have "isDigit a" using d by simp
    then have "[a] \<in> lang (Atom ClassDigit)" "[] \<in> lang (Opt (Atom ClassDigit))"
      by (simp_all add: Opt_def)
    then have "[a] @ [] \<in> lang (Seq (Atom ClassDigit) (Opt (Atom ClassDigit)))"
      unfolding lang.simps(5) by blast
    then show ?thesis using 2 by (simp add: Opt_def)
  next
    case 3
    then have "isDigit a" "isDigit b" using d by simp_all
    then have "[a] \<in> lang (Atom ClassDigit)" "[b] \<in> lang (Opt (Atom ClassDigit))"
      by (simp_all add: Opt_def)
    then have "[a] @ [b] \<in> lang (Seq (Atom ClassDigit) (Opt (Atom ClassDigit)))"
      unfolding lang.simps(5) by blast
    then show ?thesis using 3 by (simp add: Opt_def)
  qed
qed

lemma lang_fraction:
  "lang (Opt (Seq (Atom (Ch p)) (Opt (Seq (Atom ClassDigit) (Opt (Atom ClassDigit)))))) =
     {frac. frac = [] \<or> (\<exists>ds. frac = p # ds \<and> length ds \<le> 2 \<and> (\<forall>c \<in> set ds. isDigit c))}"
proof -
  let ?D = "Opt (Seq (Atom ClassDigit) (Opt (Atom ClassDigit)))"
  have "lang (Opt (Seq (Atom (Ch p)) ?D)) = {[]} \<union> {p # ds | ds. ds \<in> lang ?D}"
    by (auto simp: Opt_def)
  then show ?thesis unfolding lang_two_digits by auto
qed

lemma lang_Seq_iff: "s \<in> lang (Seq r1 r2) \<longleftrightarrow> (\<exists>u v. s = u @ v \<and> u \<in> lang r1 \<and> v \<in> lang r2)"
  by auto

lemma lang_amount_rx: "s \<in> lang (amount_rx p) \<longleftrightarrow> amount_shape p s"
proof -
  let ?S = "Star (Atom ClassSpace)"
  let ?G = "Star (Seq (Star (Atom ClassSpace)) (Star (Atom ClassDigit)))"
  let ?F = "Opt (Seq (Atom (Ch p)) (Opt (Seq (Atom ClassDigit) (Opt (Atom ClassDigit)))))"
  have "s \<in> lang (amount_rx p) \<longleftrightarrow>
        (\<exists>ws d body frac. s = ws @ d # body @ frac \<and> ws \<in> lang ?S \<and> isDigit d
            \<and> body \<in> lang ?G \<and> frac \<in> lang ?F)"
  proof
    assume "s \<in> lang (amount_rx p)"
    then obtain ws r1 where 1: "s = ws @ r1" "ws \<in> lang ?S"
      "r1 \<in> lang (Seq (Atom ClassDigit) (Seq ?G ?F))"
      unfolding amount_rx_def lang_Seq_iff[of s] by blast
    from 1(3) obtain d1 r2 where 2: "r1 = d1 @ r2" "d1 \<in> lang (Atom ClassDigit)"
      "r2 \<in> lang (Seq ?G ?F)"
      unfolding lang_Seq_iff[of r1] by blast
    from 2(3) obtain body frac where 3: "r2 = body @ frac" "body \<in> lang ?G" "frac \<in> lang ?F"
      unfolding lang_Seq_iff[of r2] by blast
    from 2(2) obtain d where 4: "d1 = [d]" "isDigit d" by auto
    have "s = ws @ d # body @ frac" using 1(1) 2(1) 3(1) 4(1) by simp
    then show "\<exists>ws d body frac. s = ws @ d # body @ frac \<and> ws \<in> lang ?S \<and> isDigit d
            \<and> body \<in> lang ?G \<and> frac \<in> lang ?F"
      using 1(2) 4(2) 3(2,3) by blast
  next
    assume "\<exists>ws d body frac. s = ws @ d # body @ frac \<and> ws \<in> lang ?S \<and> isDigit d
            \<and> body \<in> lang ?G \<and> frac \<in> lang ?F"
    then obtain ws d body frac where a: "s = ws @ d # body @ frac" "ws \<in> lang ?S" "isDigit d"
      "body \<in> lang ?G" "frac \<in> lang ?F" by blast
    have "body @ frac \<in> lang (Seq ?G ?F)" unfolding lang_Seq_iff using a(4,5) by blast
    moreover have "[d] \<in> lang (Atom ClassDigit)" using a(3) by simp
    ultimately have "[d] @ body @ frac \<in> lang (Seq (Atom ClassDigit) (Seq ?G ?F))"
      unfolding lang_Seq_iff[of "[d] @ body @ frac"] by blast
    then have "ws @ [d] @ body @ frac \<in> lang (Seq ?S (Seq (Atom ClassDigit) (Seq ?G ?F)))"
      unfolding lang_Seq_iff[of "ws @ [d] @ body @ frac"] using a(2) by blast
    then show "s \<in> lang (amount_rx p)" by (simp add: a(1) amount_rx_def del: lang.simps)
  qed
  then show ?thesis
    unfolding lang_spaces lang_groups lang_fraction amount_shape_def by simp
qed

section \<open>The refinement of \<open>zAmountRaw\<close> never rejects a matched string\<close>

lemma digit_value_nonneg: "isDigit c \<Longrightarrow> 0 \<le> digit_value c"
  by (simp add: isDigit_def digit_value_def word_le_def)

lemma digits_value_nonneg: "\<forall>c \<in> set ds. isDigit c \<Longrightarrow> 0 \<le> digits_value ds"
proof (induction ds rule: rev_induct)
  case Nil
  show ?case by (simp add: digits_value_def)
next
  case (snoc c ds)
  then have "0 \<le> digits_value ds" "0 \<le> digit_value c" by (simp_all add: digit_value_nonneg)
  then show ?case by (simp add: digits_value_snoc)
qed

lemma round_half_even_nonneg: "0 \<le> y \<Longrightarrow> 0 \<le> round_half_even y"
proof -
  assume "0 \<le> y"
  then have "0 \<le> \<lfloor>y\<rfloor>" by simp
  then show ?thesis by (simp add: round_half_even_def Let_def)
qed

lemma rd_nonneg: "0 \<le> x \<Longrightarrow> 0 \<le> rd x"
proof -
  assume x: "0 \<le> x"
  define q :: rat where "q = 2 powi (max (ilog2 x) (- 1022) - 52)"
  have q: "0 < q" by (simp add: q_def)
  then have "0 \<le> x / q" using x by simp
  then have "0 \<le> round_half_even (x / q)" by (rule round_half_even_nonneg)
  then have "0 \<le> of_int (round_half_even (x / q)) * q" using q by simp
  then show ?thesis by (simp add: rd_def Let_def q_def)
qed

lemma fround_pos:
  assumes "0 < x"
  shows "\<not> isNaN (fround x) \<and> num_le (Finite 0) (fround x)"
proof -
  have "0 \<le> rd x" using assms by (simp add: rd_nonneg)
  then show ?thesis using assms by (simp add: fround_def Let_def isNaN_def num_le_def)
qed

lemma parseFloat_digits:
  assumes "ds \<noteq> []" "\<forall>c \<in> set ds. isDigit c" "rest = [] \<or> hd rest = 0x2C"
  shows "parseFloat (ds @ rest) =
         (if digits_value ds = 0 then Finite 0 else fround (of_int (digits_value ds)))"
proof -
  define body where "body = ds @ rest"
  have hb: "isDigit (hd body)" "body \<noteq> []" using assms(1,2) by (simp_all add: body_def)
  note hf = isDigit_facts[OF hb(1)]
  have ws: "dropWhile isWhiteSpace body = body" using hf(1) hb(2) by (cases body) auto
  have notinf: "\<not> starts_with (str ''Infinity'') body"
  proof
    assume "starts_with (str ''Infinity'') body"
    then have "hd body = hd (str ''Infinity'')" by (rule starts_with_hd) (simp add: str_def)
    then show False using hf(4) by (simp add: str_def)
  qed
  have nr: "rest = [] \<or> \<not> isDigit (hd rest)" using assms(3) by (auto simp: isDigit_def)
  have tk: "takeWhile isDigit body = ds" "dropWhile isDigit body = rest"
  proof -
    show "takeWhile isDigit body = ds"
      using assms(2) nr unfolding body_def by (cases rest) simp_all
    show "dropWhile isDigit body = rest"
      using assms(2) nr unfolding body_def by (cases rest) simp_all
  qed
  have nodot: "(rest \<noteq> [] \<and> hd rest = 0x2E) = False" using assms(3) by auto
  have ex: "exponent_part rest = 0"
    using assms(3) by (cases rest) (auto simp: exponent_part_def)
  have dv0: "digits_value [] = 0" by (simp add: digits_value_def)
  have u: "(if body \<noteq> [] \<and> (hd body = 0x2D \<or> hd body = 0x2B) then tl body else body) = body"
    using hf(2,3) by simp
  have sg: "(body \<noteq> [] \<and> hd body = 0x2D) = False" using hf(2) by simp
  show ?thesis
    unfolding body_def[symmetric] parseFloat_def Let_def ws u
    using notinf assms(1) by (simp add: tk nodot sg ex dv0)
qed

lemma replace_first_absent: "c \<notin> set s \<Longrightarrow> replace_first [c] r s = s"
  by (induction s) (auto simp: starts_with_def)

lemma refinement_of_shape:
  assumes "amount_shape 0x2C s" "defaultThousandsSeparator t = [0xA0]"
  shows "\<not> isNaN (refined_number t s) \<and> num_le (Finite 0) (refined_number t s)"
proof -
  from assms(1) obtain ws d body frac where s: "s = ws @ d # body @ frac"
    and ws: "\<forall>c \<in> set ws. isWhiteSpace c" and d: "isDigit d"
    and body: "\<forall>c \<in> set body. isDigit c \<or> isWhiteSpace c"
    and frac: "frac = [] \<or> (\<exists>ds. frac = 0x2C # ds \<and> length ds \<le> 2 \<and> (\<forall>c \<in> set ds. isDigit c))"
    unfolding amount_shape_def by blast
  define ds where "ds = d # filter (\<lambda>c. \<not> isWhiteSpace c) body"
  have nws: "\<And>c. isDigit c \<Longrightarrow> \<not> isWhiteSpace c" by (rule isDigit_facts(1))
  have comma: "\<not> isWhiteSpace 0x2C" by (simp add: isWhiteSpace_def)
  have fw: "filter (\<lambda>c. \<not> isWhiteSpace c) ws = []" using ws by (induction ws) auto
  have ff: "filter (\<lambda>c. \<not> isWhiteSpace c) frac = frac"
    using frac comma nws by (auto simp: filter_id_conv)
  have stripped: "filter (\<lambda>c. \<not> isWhiteSpace c) s = ds @ frac"
    using nws[OF d] by (simp add: s fw ff ds_def)
  have dsd: "\<forall>c \<in> set ds. isDigit c" using d body by (auto simp: ds_def)
  have ne: "ds \<noteq> []" by (simp add: ds_def)
  have fr: "frac = [] \<or> hd frac = 0x2C" using frac by auto
  have "isWhiteSpace 0xA0" by (simp add: isWhiteSpace_def)
  then have "0xA0 \<notin> set (filter (\<lambda>c. \<not> isWhiteSpace c) s)" by simp
  then have "0xA0 \<notin> set (ds @ frac)" unfolding stripped .
  then have rf: "replace_first [0xA0] [] (ds @ frac) = ds @ frac" by (rule replace_first_absent)
  have val: "refined_number t s =
        (if digits_value ds = 0 then Finite 0 else fround (of_int (digits_value ds)))"
    by (simp add: refined_number_def assms(2) stripped rf parseFloat_digits[OF ne dsd fr])
  show ?thesis
  proof (cases "digits_value ds = 0")
    case True
    then show ?thesis by (simp add: val isNaN_def num_le_def)
  next
    case False
    then have "0 < digits_value ds" using digits_value_nonneg[OF dsd] by simp
    then have "(0::rat) < of_int (digits_value ds)" by simp
    then show ?thesis using fround_pos False by (simp add: val)
  qed
qed

lemma default_amountStringRegex:
  "amountStringRegex (createMoneyThings (only_currencies cs)) = Returns (amount_rx 0x2C)"
  by (simp add: amountStringRegex_def Let_def isSyntaxCharacter_def word_le_nat_alt)

section \<open>Claim C6: what \<open>zAmountRaw\<close> accepts\<close>

text \<open>
  C6. With the default configuration \<open>zAmountRaw\<close> accepts exactly the strings of the
  shape: optional leading white space, digit groups with white space among them
  (beginning with a digit), optionally followed by the decimal point \<open>,\<close> and at most two
  digits; every other string is rejected with a ZodError. The stripped value of a string
  of that shape always parses as a non-negative number, so the refinement rejects
  nothing more. In particular \<open>-5\<close> and \<open>12,345\<close> are rejected and \<open>12,34\<close> is accepted.
\<close>

theorem C6_zAmountRaw_accepts:
  "(zAmountRaw (createMoneyThings (only_currencies cs)) s = Returns s
      \<longleftrightarrow> amount_shape 0x2C s)
   \<and> (\<not> amount_shape 0x2C s
      \<longrightarrow> zAmountRaw (createMoneyThings (only_currencies cs)) s = Throws ZodError)
   \<and> (amount_shape 0x2C s
      \<longrightarrow> \<not> isNaN (refined_number (createMoneyThings (only_currencies cs)) s)
          \<and> num_le (Finite 0) (refined_number (createMoneyThings (only_currencies cs)) s))
   \<and> zAmountRaw (createMoneyThings (only_currencies cs)) (str ''-5'') = Throws ZodError
   \<and> zAmountRaw (createMoneyThings (only_currencies cs)) (str ''12,345'') = Throws ZodError
   \<and> zAmountRaw (createMoneyThings (only_currencies cs)) (str ''12,34'')
       = Returns (str ''12,34'')"
proof -
  let ?t = "createMoneyThings (only_currencies cs)"
  have ts: "defaultThousandsSeparator ?t = [0xA0]" by simp
  have r: "amount_shape 0x2C s \<Longrightarrow>
        \<not> isNaN (refined_number ?t s) \<and> num_le (Finite 0) (refined_number ?t s)"
    using refinement_of_shape[OF _ ts] by blast
  have z: "zAmountRaw ?t s = (if amount_shape 0x2C s then Returns s else Throws ZodError)"
    using r by (auto simp: zAmountRaw_def default_amountStringRegex rx_test_iff lang_amount_rx
        Let_def)
  have e1: "zAmountRaw ?t (str ''-5'') = Throws ZodError" by code_simp
  have e2: "zAmountRaw ?t (str ''12,345'') = Throws ZodError" by code_simp
  have e3: "zAmountRaw ?t (str ''12,34'') = Returns (str ''12,34'')" by code_simp
  from z r e1 e2 e3 show ?thesis by simp
qed

text \<open>The string \<open>12,34\<close> has the shape, and C6 gives its acceptance.\<close>

theorem C6_zAmountRaw_accepts_witness:
  "amount_shape 0x2C (str ''12,34'')
   \<and> zAmountRaw (createMoneyThings (only_currencies [usd])) (str ''12,34'')
       = Returns (str ''12,34'')
   \<and> \<not> isNaN (refined_number (createMoneyThings (only_currencies [usd])) (str ''12,34''))"
proof -
  have "str ''12,34'' = [] @ 0x31 # [0x32] @ [0x2C, 0x33, 0x34]" by (simp add: str_def)
  moreover have "isDigit 0x31" "isDigit 0x32" "isDigit 0x33" "isDigit 0x34"
    by (simp_all add: isDigit_def)
  ultimately have sh: "amount_shape 0x2C (str ''12,34'')"
    unfolding amount_shape_def
    by (intro exI[of _ "[]"] exI[of _ "0x31"] exI[of _ "[0x32]"] exI[of _ "[0x2C, 0x33, 0x34]"])
       simp
  from C6_zAmountRaw_accepts[of "[usd]" "str ''12,34''"] sh show ?thesis by blast
qed

section \<open>The two revisions of the formatter\<close>

lemma toFixed2_amount:
  fixes n :: int
  assumes "\<bar>n\<bar> \<le> 2 ^ 48"
  shows "toFixed2 (Finite (rd (of_int n / 100))) =
         Returns (sign_str n @ decimal (\<bar>n\<bar> div 100) @ 0x2E # two_digits (\<bar>n\<bar> mod 100))"
proof -
  define x :: rat where "x = of_int n / 100"
  define d where "d = rd x"
  have n52: "\<bar>n\<bar> \<le> 2 ^ 52" using assms by simp
  have err: "\<bar>d - x\<bar> \<le> \<bar>x\<bar> / 2 ^ 53"
    using scaled_float(2)[OF n52] by (simp add: d_def x_def)
  have "\<bar>of_int n :: rat\<bar> \<le> of_int (2 ^ 48)" using assms by (rule of_int_abs_le)
  then have bound: "\<bar>x\<bar> \<le> 2 ^ 48 / 100" by (simp add: x_def)
  have e2: "\<bar>d - x\<bar> \<le> 1 / 3200"
  proof -
    have "\<bar>x\<bar> / 2 ^ 53 \<le> (2 ^ 48 / 100) / 2 ^ 53" using bound by (simp add: divide_right_mono)
    also have "\<dots> = 1 / 3200" by simp
    finally show ?thesis using err by linarith
  qed
  have ax: "\<bar>x\<bar> * 100 = of_int \<bar>n\<bar>" by (simp add: x_def)
  have dd: "\<bar>\<bar>d\<bar> - \<bar>x\<bar>\<bar> \<le> 1 / 3200" using e2 by linarith
  then have "of_int \<bar>n\<bar> \<le> \<bar>d\<bar> * 100 + 1 / 2" "\<bar>d\<bar> * 100 + 1 / 2 < of_int \<bar>n\<bar> + 1"
    unfolding ax[symmetric] by linarith+
  then have m: "\<lfloor>\<bar>d\<bar> * 100 + 1 / 2\<rfloor> = \<bar>n\<bar>" by (rule floor_unique)
  have "\<bar>d\<bar> \<le> 2 ^ 48 / 100 + 1 / 3200" using dd bound by linarith
  then have small: "\<not> 10 ^ 21 \<le> \<bar>d\<bar>" by simp
  have sg: "d < 0 \<longleftrightarrow> n < 0" using scaled_float(3)[OF n52] by (simp add: d_def x_def)
  have "\<bar>n\<bar> mod 100 mod 10 = \<bar>n\<bar> mod 10" by (rule mod_mod_cancel) simp
  then have td: "[digit_char (\<bar>n\<bar> mod 100 div 10), digit_char (\<bar>n\<bar> mod 10)]
      = two_digits (\<bar>n\<bar> mod 100)"
    by (simp add: two_digits_def)
  have "toFixed2 (Finite d) =
      Returns (sign_str n @ decimal (\<bar>n\<bar> div 100) @ 0x2E # two_digits (\<bar>n\<bar> mod 100))"
    using small by (simp add: toFixed2_def Let_def m sg sign_str_def td)
  then show ?thesis by (simp add: d_def x_def)
qed

lemma ends_with_00:
  assumes "0 \<le> f" "f < 100"
  shows "ends_with (str ''.00'') (a @ 0x2E # two_digits f) \<longleftrightarrow> f = 0"
proof -
  have fd: "0 \<le> f div 10" "f div 10 < 10" "0 \<le> f mod 10" "f mod 10 < 10"
    using assms by simp_all
  have z: "f div 10 = 0 \<and> f mod 10 = 0 \<longleftrightarrow> f = 0" by auto
  have "ends_with (str ''.00'') (a @ 0x2E # two_digits f)
        \<longleftrightarrow> digit_char (f div 10) = 0x30 \<and> digit_char (f mod 10) = 0x30"
    by (simp add: ends_with_def str_def two_digits_def)
  then show ?thesis
    using digit_char_eq_zero[OF fd(1,2)] digit_char_eq_zero[OF fd(3,4)] z by simp
qed

lemma toLocaleString_int:
  fixes k :: int
  assumes "\<bar>k\<bar> \<le> 2 ^ 51"
  shows "toLocaleString_deDE (Finite (of_int k)) = sign_str k @ grouped \<bar>k\<bar>"
proof -
  have "shortest_decimal (of_int \<bar>k\<bar>) = of_int \<bar>k\<bar>"
    using assms by (intro shortest_decimal_int) simp_all
  then have s: "shortest_decimal \<bar>of_int k :: rat\<bar> = of_int \<bar>k\<bar>" by simp
  have "\<lfloor>(of_int \<bar>k\<bar> :: rat) * 1000 + 1 / 2\<rfloor> = 1000 * \<bar>k\<bar>"
    by (rule floor_unique) simp_all
  then show ?thesis
    unfolding toLocaleString_deDE_def Let_def number.case s
    by (simp add: sign_str_def fraction3_def)
qed

lemma grouped_zero: "grouped 0 = [0x30]"
  by (simp add: grouped.simps[of 0] decimal.simps[of 0] digit_char_def)

lemma Math_round_amount:
  fixes n :: int
  assumes "\<bar>n\<bar> \<le> 2 ^ 48" "rounds_to_units n"
  shows "toLocaleString_deDE (Math_round (Finite (rd (of_int n / 100)))) =
         sign_str n @ grouped (\<bar>n\<bar> div 100)"
proof -
  define x :: rat where "x = of_int n / 100"
  define d where "d = rd x"
  define k where "k = \<bar>n\<bar> div 100"
  define f where "f = \<bar>n\<bar> mod 100"
  have nkf: "\<bar>n\<bar> = 100 * k + f" and k0: "0 \<le> k" and f0: "0 \<le> f" and f100: "f < 100"
    by (simp_all add: k_def f_def)
  have n52: "\<bar>n\<bar> \<le> 2 ^ 52" using assms(1) by simp
  have err: "\<bar>d - x\<bar> \<le> \<bar>x\<bar> / 2 ^ 53"
    using scaled_float(2)[OF n52] by (simp add: d_def x_def)
  have "\<bar>of_int n :: rat\<bar> \<le> of_int (2 ^ 48)" using assms(1) by (rule of_int_abs_le)
  then have bound: "\<bar>x\<bar> \<le> 2 ^ 48 / 100" by (simp add: x_def)
  have e2: "\<bar>d - x\<bar> \<le> 1 / 3200"
  proof -
    have "\<bar>x\<bar> / 2 ^ 53 \<le> (2 ^ 48 / 100) / 2 ^ 53" using bound by (simp add: divide_right_mono)
    also have "\<dots> = 1 / 3200" by simp
    finally show ?thesis using err by linarith
  qed
  have sg: "d < 0 \<longleftrightarrow> n < 0" using scaled_float(3)[OF n52] by (simp add: d_def x_def)
  have axv: "\<bar>of_int n :: rat\<bar> / 100 = of_int k + of_int f / 100"
    using units_and_cents[OF nkf] by simp
  define z where "z = (if n < 0 then - k else k)"
  have fl: "\<lfloor>d + 1 / 2\<rfloor> = z"
  proof (cases "n < 0")
    case False
    then have f50: "f < 50" using assms(2) by (auto simp: rounds_to_units_def f_def)
    then have "f \<le> 49" by simp
    then have "(of_int f :: rat) \<le> of_int 49" by (simp only: of_int_le_iff)
    moreover have "(0::rat) \<le> of_int f" using f0 by simp
    moreover have "x = of_int k + of_int f / 100" using False axv by (simp add: x_def)
    ultimately have "of_int k \<le> x" "x \<le> of_int k + 49 / 100" by simp_all
    moreover have "d - x \<le> 1 / 3200" "x - d \<le> 1 / 3200" using e2 by linarith+
    ultimately have "of_int k \<le> d + 1 / 2" "d + 1 / 2 < of_int k + 1" by linarith+
    then have "\<lfloor>d + 1 / 2\<rfloor> = k" by (rule floor_unique)
    then show ?thesis using False by (simp add: z_def)
  next
    case True
    then have f50: "f \<le> 50" using assms(2) by (auto simp: rounds_to_units_def f_def)
    have xv: "x = - (of_int k + of_int f / 100)" using True axv by (simp add: x_def)
    show ?thesis
    proof (cases "f = 50")
      case True
      have "n = - (100 * k + 50)" using nkf True \<open>n < 0\<close> by simp
      then have xh: "x = of_int (- (2 * k + 1)) / 2" by (simp add: x_def)
      have "\<bar>- (2 * k + 1)\<bar> \<le> 2 ^ 53" using nkf assms(1) k0 f0 by simp
      then have "rd (of_int (- (2 * k + 1)) / 2) = of_int (- (2 * k + 1)) / 2"
        by (rule rd_half_int)
      then have "d = of_int (- (2 * k + 1)) / 2" unfolding d_def xh .
      then have "d + 1 / 2 = of_int (- k)" by simp
      then have "\<lfloor>d + 1 / 2\<rfloor> = - k" by simp
      then show ?thesis using \<open>n < 0\<close> by (simp add: z_def)
    next
      case False
      then have "f \<le> 49" using f50 by simp
      then have "(of_int f :: rat) \<le> of_int 49" by (simp only: of_int_le_iff)
      moreover have "(0::rat) \<le> of_int f" using f0 by simp
      ultimately have "- of_int k - 49 / 100 \<le> x" "x \<le> - of_int k" unfolding xv by simp_all
      moreover have "d - x \<le> 1 / 3200" "x - d \<le> 1 / 3200" using e2 by linarith+
      ultimately have "- of_int k \<le> d + 1 / 2" "d + 1 / 2 < - of_int k + 1" by linarith+
      then have "of_int (- k) \<le> d + 1 / 2" "d + 1 / 2 < of_int (- k) + 1" by simp_all
      then have "\<lfloor>d + 1 / 2\<rfloor> = - k" by (rule floor_unique)
      then show ?thesis using \<open>n < 0\<close> by (simp add: z_def)
    qed
  qed
  have mr: "Math_round (Finite d) = (if z = 0 \<and> n < 0 then NegZero else Finite (of_int z))"
    by (simp add: Math_round_def Let_def fl sg)
  have "toLocaleString_deDE (Math_round (Finite d)) = sign_str n @ grouped k"
  proof (cases "z = 0 \<and> n < 0")
    case True
    then have "k = 0" by (simp add: z_def split: if_splits)
    then show ?thesis using True
      by (simp add: mr toLocaleString_deDE_def sign_str_def grouped_zero str_def)
  next
    case False
    have az: "\<bar>z\<bar> = k" using k0 by (simp add: z_def)
    have sz: "sign_str z = sign_str n"
    proof (cases "n < 0")
      case True
      then have "z \<noteq> 0" using False by simp
      then have "z < 0" using True k0 by (simp add: z_def)
      then show ?thesis using True by (simp add: sign_str_def)
    next
      case False
      then show ?thesis using k0 by (simp add: z_def sign_str_def)
    qed
    have "k \<le> 2 ^ 51" using nkf f0 k0 assms(1) by simp
    then have z51: "\<bar>z\<bar> \<le> 2 ^ 51" using az by simp
    have "Math_round (Finite d) = Finite (of_int z)" using False mr by auto
    then show ?thesis by (simp add: toLocaleString_int[OF z51] az sz)
  qed
  then show ?thesis by (simp add: d_def x_def k_def)
qed

lemma int_mod_10_zero: "(n::int) mod 10 = 0 \<longleftrightarrow> \<bar>n\<bar> mod 100 mod 10 = 0"
proof -
  have "n mod 10 = 0 \<longleftrightarrow> 10 dvd n" by (simp add: dvd_eq_mod_eq_0)
  also have "\<dots> \<longleftrightarrow> 10 dvd \<bar>n\<bar>" by simp
  also have "\<dots> \<longleftrightarrow> \<bar>n\<bar> mod 10 = 0" by (simp add: dvd_eq_mod_eq_0)
  also have "\<bar>n\<bar> mod 10 = \<bar>n\<bar> mod 100 mod 10" by (rule mod_mod_cancel[symmetric]) simp
  finally show ?thesis .
qed

lemma part_000_rendering:
  fixes n :: int
  assumes "\<bar>n\<bar> \<le> 2 ^ 48"
    and "a = Num (Finite (of_int n)) \<or> a = BigInt n"
    and "plain dp" "plain ts" "0x2C \<notin> set ts"
    and "revisions_agree policy n"
  shows "integerWithDecimalsToAmountString_part_000 t a (Some dp) (Some ts) (Some policy) =
         Returns (rendering dp ts policy n)"
proof -
  define k where "k = \<bar>n\<bar> div 100"
  define f where "f = \<bar>n\<bar> mod 100"
  define d where "d = rd (of_int n / 100)"
  have k0: "0 \<le> k" and f0: "0 \<le> f" and f100: "f < 100" by (simp_all add: k_def f_def)
  have n52: "\<bar>n\<bar> \<le> 2 ^ 52" using assms(1) by simp
  have fl: "integerWithDecimalsToFloatNumber a = Finite d"
    using assms(2) scaled_float(1)[OF n52]
    by (auto simp: integerWithDecimalsToFloatNumber_def Number_of_bigint_safe[OF n52] d_def)
  have tf: "toFixed2 (Finite d) = Returns (sign_str n @ decimal k @ 0x2E # two_digits f)"
    using toFixed2_amount[OF assms(1)] by (simp add: d_def k_def f_def)
  have de: "ends_with (str ''.00'') (sign_str n @ decimal k @ 0x2E # two_digits f) \<longleftrightarrow> f = 0"
    using ends_with_00[OF f0 f100, of "sign_str n @ decimal k"] by simp
  have core: "integerWithDecimalsToAmountString_part_000 t a (Some dp) (Some ts) (Some policy) =
      Returns (replace_char_global 0x2C dp (replace_char_global 0x2E ts
        (toLocaleString_deDE (case policy of
             showAlways \<Rightarrow> Finite d
           | hideAlways \<Rightarrow> Math_round (Finite d)
           | hideIfZero \<Rightarrow> if f \<noteq> 0 then Finite d else Math_round (Finite d)))))"
    by (simp add: integerWithDecimalsToAmountString_part_000_def Let_def or_default_def fl tf de)
  have loc: "toLocaleString_deDE (Finite d) = sign_str n @ grouped k @ fraction3 (10 * f)"
    using toLocaleString_amount[OF assms(1)] scaled_float(1)[OF n52]
    by (simp add: d_def k_def f_def)
  have sub: "\<And>b. replace_char_global 0x2C dp (replace_char_global 0x2E ts
           (sign_str n @ grouped k @ (if b then [] else 0x2C # two_digits f))) =
         sign_str n @ grouped_by ts k @ (if b then [] else dp @ two_digits f)"
    by (rule substitute_separators[OF assms(3,4,5) f0 f100 k0])
  have m100: "n mod 100 = 0 \<longleftrightarrow> f = 0" by (simp add: f_def int_mod_100_zero[symmetric])
  have m10: "n mod 10 = 0 \<longleftrightarrow> f mod 10 = 0" unfolding f_def by (rule int_mod_10_zero)
  have with_cents: "f mod 10 \<noteq> 0 \<Longrightarrow>
      replace_char_global 0x2C dp (replace_char_global 0x2E ts (toLocaleString_deDE (Finite d)))
      = sign_str n @ grouped_by ts k @ dp @ two_digits f"
  proof -
    assume a: "f mod 10 \<noteq> 0"
    then have "f \<noteq> 0" by auto
    then have "fraction3 (10 * f) = 0x2C # two_digits f"
      using a fraction3_cents[OF f0 f100] by simp
    then show ?thesis using sub[of False] by (simp add: loc)
  qed
  have rounded: "rounds_to_units n \<Longrightarrow>
      replace_char_global 0x2C dp (replace_char_global 0x2E ts
        (toLocaleString_deDE (Math_round (Finite d))))
      = sign_str n @ grouped_by ts k"
  proof -
    assume "rounds_to_units n"
    then have "toLocaleString_deDE (Math_round (Finite d)) = sign_str n @ grouped k"
      using Math_round_amount[OF assms(1)] by (simp add: d_def k_def)
    then show ?thesis using sub[of True] by simp
  qed
  have units: "n mod 100 = 0 \<Longrightarrow> rounds_to_units n"
    by (auto simp: rounds_to_units_def int_mod_100_zero[symmetric])
  show ?thesis
  proof (cases policy)
    case showAlways
    then have "f mod 10 \<noteq> 0" using assms(6) m10 by (simp add: revisions_agree_def)
    then show ?thesis
      unfolding core rendering_def k_def[symmetric] f_def[symmetric]
      using showAlways with_cents by simp
  next
    case hideAlways
    then have "rounds_to_units n" using assms(6) by (simp add: revisions_agree_def)
    then show ?thesis
      unfolding core rendering_def k_def[symmetric] f_def[symmetric]
      using hideAlways rounded by simp
  next
    case hideIfZero
    show ?thesis
    proof (cases "f = 0")
      case True
      then have "rounds_to_units n" using units m100 by simp
      then have "replace_char_global 0x2C dp (replace_char_global 0x2E ts
          (toLocaleString_deDE (Math_round (Finite d)))) = sign_str n @ grouped_by ts k"
        by (rule rounded)
      moreover have "n mod 100 = 0" using True m100 by simp
      ultimately show ?thesis
        unfolding core rendering_def k_def[symmetric] f_def[symmetric]
        using hideIfZero True by simp
    next
      case False
      then have "f mod 10 \<noteq> 0" using assms(6) hideIfZero m10 m100
        by (simp add: revisions_agree_def)
      then have "replace_char_global 0x2C dp (replace_char_global 0x2E ts
          (toLocaleString_deDE (Finite d))) = sign_str n @ grouped_by ts k @ dp @ two_digits f"
        by (rule with_cents)
      moreover have "n mod 100 \<noteq> 0" using False m100 by simp
      ultimately show ?thesis
        unfolding core rendering_def k_def[symmetric] f_def[symmetric]
        using hideIfZero False by simp
    qed
  qed
qed

section \<open>Claim C10: the two revisions\<close>

text \<open>
  C10 (as amended). Under the default separators, for every integer amount \<open>n\<close> of
  magnitude at most \<open>2\<^sup>4\<^sup>8\<close> (a Number or a BigInt), the formatter of \<open>src/unnamed/part_000\<close>
  returns the same string as that of \<open>src/src/index.ts\<close> whenever: under \<open>showAlways\<close> the
  last digit of \<open>n\<close> is not 0; under \<open>hideIfZero\<close> the last digit is not 0 or the cents are
  00; under \<open>hideAlways\<close> rounding \<open>n / 100\<close> to an integer drops the cents (fewer than 50
  cents, or exactly 50 for a negative amount).
\<close>

theorem C10_revisions_agree:
  fixes n :: int
  assumes "\<bar>n\<bar> \<le> 2 ^ 48"
    and "a = Num (Finite (of_int n)) \<or> a = BigInt n"
    and "revisions_agree policy n"
  shows "integerWithDecimalsToAmountString_part_000 (createMoneyThings (only_currencies cs))
           a None None (Some policy)
         = Returns (integerWithDecimalsToAmountString (createMoneyThings (only_currencies cs))
                      a None None (Some policy))"
proof -
  let ?t = "createMoneyThings (only_currencies cs)"
  have new: "integerWithDecimalsToAmountString ?t a None None (Some policy) =
        rendering (str '','') [0xA0] policy n"
    using format_rendering[OF assms(1,2), of None ?t None "Some policy"]
    by (simp add: or_default_def del: str_chars)
  have "integerWithDecimalsToAmountString_part_000 ?t a
          (Some (str '','')) (Some [0xA0]) (Some policy)
        = Returns (rendering (str '','') [0xA0] policy n)"
    by (rule part_000_rendering[OF assms(1,2) _ _ _ assms(3)]) (simp_all add: plain_def)
  moreover have "integerWithDecimalsToAmountString_part_000 ?t a None None (Some policy)
        = integerWithDecimalsToAmountString_part_000 ?t a
            (Some (str '','')) (Some [0xA0]) (Some policy)"
    by (simp add: integerWithDecimalsToAmountString_part_000_def or_default_def del: str_chars)
  ultimately show ?thesis using new by simp
qed

text \<open>The hypotheses of C10 hold for 555 cents under \<open>showAlways\<close>: both give \<open>5,55\<close>.\<close>

theorem C10_revisions_agree_witness:
  "\<bar>555 :: int\<bar> \<le> 2 ^ 48 \<and> revisions_agree showAlways 555
   \<and> integerWithDecimalsToAmountString_part_000 (createMoneyThings (only_currencies [usd]))
         (Num (Finite 555)) None None (Some showAlways)
       = Returns (integerWithDecimalsToAmountString (createMoneyThings (only_currencies [usd]))
                    (Num (Finite 555)) None None (Some showAlways))"
proof -
  have h: "\<bar>555 :: int\<bar> \<le> 2 ^ 48" by simp
  have g: "revisions_agree showAlways 555" by (simp add: revisions_agree_def)
  show ?thesis
    using h g C10_revisions_agree[OF h _ g, of "Num (Finite 555)" "[usd]"] by simp
qed

text \<open>
  C10 as stated fails under each policy: the older revision shows 500 cents under
  \<open>showAlways\<close> as \<open>5\<close> and not \<open>5,00\<close>, 550 cents under \<open>hideIfZero\<close> as \<open>5,5\<close> and not
  \<open>5,50\<close>, and 199 cents under \<open>hideAlways\<close> as \<open>2\<close> and not \<open>1\<close>.
\<close>

theorem C10_revisions_differ_counterexample:
  "integerWithDecimalsToAmountString_part_000 (createMoneyThings (only_currencies [usd]))
     (Num (Finite 500)) None None (Some showAlways) = Returns (str ''5'')
   \<and> integerWithDecimalsToAmountString (createMoneyThings (only_currencies [usd]))
       (Num (Finite 500)) None None (Some showAlways) = str ''5,00''
   \<and> integerWithDecimalsToAmountString_part_000 (createMoneyThings (only_currencies [usd]))
       (Num (Finite 550)) None None (Some hideIfZero) = Returns (str ''5,5'')
   \<and> integerWithDecimalsToAmountString (createMoneyThings (only_currencies [usd]))
       (Num (Finite 550)) None None (Some hideIfZero) = str ''5,50''
   \<and> integerWithDecimalsToAmountString_part_000 (createMoneyThings (only_currencies [usd]))
       (Num (Finite 199)) None None (Some hideAlways) = Returns (str ''2'')
   \<and> integerWithDecimalsToAmountString (createMoneyThings (only_currencies [usd]))
       (Num (Finite 199)) None None (Some hideAlways) = str ''1''"
  by code_simp

end
